theory Spec2Isabelle
  imports Main "HOL-Library.Sublist" "HOL-Library.Char_ord" "HOL-Library.List_Lexorder"
begin

section \<open>Strings\<close>

text \<open>
  Document and time texts are \<open>string\<close>s: the lists of the bytes of their UTF-8
  encoding. The characters that the regular expressions of the plugin name (digits,
  colon, hash, dash, blank, line feed) are ASCII, so each of them is one byte and is
  identified by its code; the white space outside ASCII that \<open>\s\<close> and \<open>trim()\<close> take is
  dealt with where the plan documents are read.
\<close>

definition isDigit :: "char \<Rightarrow> bool" where
  "isDigit c = (48 \<le> (of_char c :: nat) \<and> (of_char c :: nat) \<le> 57)"

definition digitValue :: "char \<Rightarrow> int" where
  "digitValue c = int (of_char c) - 48"

text \<open>\<open>parseInt(s, 10)\<close> on a string that the regular expression has already checked
  to consist of decimal digits.\<close>

definition parseInt :: "string \<Rightarrow> int" where
  "parseInt ds = foldl (\<lambda>a c. 10 * a + digitValue c) 0 ds"

section \<open>Time codec: \<open>ParserService.parseTimeToMinutes\<close>\<close>

text \<open>
  \<open>timeStr.match(/^(\d{1,2}):(\d{2})$/)\<close>: the whole string is one or two digits, a
  colon and two digits. The result is the pair of captured groups.
\<close>

fun matchTime :: "string \<Rightarrow> (string \<times> string) option" where
  "matchTime [h, c, m1, m2] =
     (if isDigit h \<and> c = CHR '':'' \<and> isDigit m1 \<and> isDigit m2
      then Some ([h], [m1, m2]) else None)"
| "matchTime [h1, h2, c, m1, m2] =
     (if isDigit h1 \<and> isDigit h2 \<and> c = CHR '':'' \<and> isDigit m1 \<and> isDigit m2
      then Some ([h1, h2], [m1, m2]) else None)"
| "matchTime _ = None"

text \<open>
  The function returns a number on every path; both failure paths log to the console
  and return 0.
\<close>

definition parseTimeToMinutes :: "string \<Rightarrow> int" where
  "parseTimeToMinutes timeStr =
     (case matchTime timeStr of
        None \<Rightarrow> 0
      | Some (hs, ms) \<Rightarrow>
          (let hours = parseInt hs; minutes = parseInt ms in
           if hours < 0 \<or> hours > 23 \<or> minutes < 0 \<or> minutes > 59 then 0
           else
             (let hours' = (if hours \<ge> 1 \<and> hours \<le> 7 then hours + 12 else hours)
              in hours' * 60 + minutes)))"

text \<open>
  The earlier revision of the service memoises the result by input string
  (\<open>timeCache\<close>); only successful parses are stored.
\<close>

record ParsedTime =
  hours :: int
  minutes :: int
  totalMinutes :: int
  originalString :: string

definition parseTimeToMinutesCached ::
  "(string \<rightharpoonup> ParsedTime) \<Rightarrow> string \<Rightarrow> int \<times> (string \<rightharpoonup> ParsedTime)" where
  "parseTimeToMinutesCached timeCache timeStr =
     (case timeCache timeStr of
        Some p \<Rightarrow> (totalMinutes p, timeCache)
      | None \<Rightarrow>
         (case matchTime timeStr of
            None \<Rightarrow> (0, timeCache)
          | Some (hs, ms) \<Rightarrow>
              (let h = parseInt hs; m = parseInt ms in
               if h < 0 \<or> h > 23 \<or> m < 0 \<or> m > 59 then (0, timeCache)
               else
                 (let h' = (if h \<ge> 1 \<and> h \<le> 7 then h + 12 else h);
                      total = h' * 60 + m
                  in (total,
                      timeCache(timeStr \<mapsto>
                        \<lparr>hours = h', minutes = m, totalMinutes = total,
                         originalString = timeStr\<rparr>))))))"

text \<open>A cache is consistent when every entry holds what parsing its key gives.\<close>

definition cacheConsistent :: "(string \<rightharpoonup> ParsedTime) \<Rightarrow> bool" where
  "cacheConsistent timeCache =
     (\<forall>s p. timeCache s = Some p \<longrightarrow> totalMinutes p = parseTimeToMinutes s)"

subsection \<open>Time texts as the specification writes them\<close>

text \<open>The decimal digit of a number below ten, and the two renderings \<open>H:MM\<close> and
  \<open>HH:MM\<close> of an hour and a minute.\<close>

definition digitChar :: "nat \<Rightarrow> char" where
  "digitChar n = char_of (48 + n)"

definition twoDigits :: "nat \<Rightarrow> string" where
  "twoDigits n = [digitChar (n div 10), digitChar (n mod 10)]"

definition renderHMM :: "nat \<Rightarrow> nat \<Rightarrow> string" where
  "renderHMM h m = digitChar h # CHR '':'' # twoDigits m"

definition renderHHMM :: "nat \<Rightarrow> nat \<Rightarrow> string" where
  "renderHHMM h m = twoDigits h @ CHR '':'' # twoDigits m"

text \<open>The specification's notion of a valid time text, written without reference to
  the parser: the shape \<open>H:MM\<close> or \<open>HH:MM\<close>, hour at most 23, minute at most 59.\<close>

fun wellFormedTime :: "string \<Rightarrow> bool" where
  "wellFormedTime [h, c, m1, m2] =
     (isDigit h \<and> c = CHR '':'' \<and> isDigit m1 \<and> isDigit m2
      \<and> 10 * digitValue m1 + digitValue m2 \<le> 59)"
| "wellFormedTime [h1, h2, c, m1, m2] =
     (isDigit h1 \<and> isDigit h2 \<and> c = CHR '':'' \<and> isDigit m1 \<and> isDigit m2
      \<and> 10 * digitValue h1 + digitValue h2 \<le> 23
      \<and> 10 * digitValue m1 + digitValue m2 \<le> 59)"
| "wellFormedTime _ = False"

section \<open>Calendar index: \<open>ScheduleService\<close>\<close>

datatype ScheduleType = Regular | EarlyDismissal | TestingDay

record SpecialSchedules =
  early_dismissal :: "string list"
  testing_day :: "string list"

text \<open>\<open>ScheduleService.getScheduleType\<close>, after the special schedules have been loaded
  (\<open>Array.includes\<close> is list membership).\<close>

definition getScheduleType :: "SpecialSchedules \<Rightarrow> string \<Rightarrow> ScheduleType" where
  "getScheduleType schedules date =
     (if date \<in> set (early_dismissal schedules) then EarlyDismissal
      else if date \<in> set (testing_day schedules) then TestingDay
      else Regular)"

text \<open>\<open>UnitAssignmentService.getScheduleTypeForDate\<close>, the helper used by the merge.\<close>

definition getScheduleTypeForDate :: "string \<Rightarrow> SpecialSchedules \<Rightarrow> ScheduleType" where
  "getScheduleTypeForDate date specialSchedules =
     (if date \<in> set (early_dismissal specialSchedules) then EarlyDismissal
      else if date \<in> set (testing_day specialSchedules) then TestingDay
      else Regular)"

record ClassSchedule =
  csName :: string
  grade :: string
  teacher :: string
  csDayOfWeek :: string
  regularTime :: string
  earlyDismissalTime :: "string option"
  testingDayTime :: "string option"
  currentUnits :: "string list"
  csFilePath :: string

text \<open>The answer \<open>{ time, note, needsReview }\<close>; the fields \<open>time\<close> and \<open>note\<close> are
  written \<open>timeText\<close> and \<open>noteText\<close> here.\<close>

record TimeForSchedule =
  timeText :: string
  noteText :: string
  needsReview :: bool

text \<open>An optional string in a condition: \<open>undefined\<close>, \<open>null\<close> and the empty string
  count as false.\<close>

definition truthy :: "string option \<Rightarrow> bool" where
  "truthy v = (case v of None \<Rightarrow> False | Some s \<Rightarrow> s \<noteq> [])"

text \<open>The warning sign of the review notes (U+26A0 U+FE0F), in UTF-8.\<close>

definition warningSign :: string where
  "warningSign = [CHR 0xE2, CHR 0x9A, CHR 0xA0, CHR 0xEF, CHR 0xB8, CHR 0x8F]"

text \<open>The \<open>switch\<close> of \<open>getTimeForScheduleType\<close>, on a parsed class schedule.\<close>

definition timeForScheduleType :: "ClassSchedule \<Rightarrow> ScheduleType \<Rightarrow> TimeForSchedule" where
  "timeForScheduleType classSchedule scheduleType =
     (case scheduleType of
        EarlyDismissal \<Rightarrow>
          (if truthy (earlyDismissalTime classSchedule)
              \<and> earlyDismissalTime classSchedule \<noteq> Some ''TBD''
           then \<lparr>timeText = the (earlyDismissalTime classSchedule),
                 noteText = '' (Early Dismissal)'', needsReview = False\<rparr>
           else \<lparr>timeText = regularTime classSchedule,
                 noteText = '' ('' @ warningSign @ '' Early Dismissal - check time manually)'',
                 needsReview = True\<rparr>)
      | TestingDay \<Rightarrow>
          (if truthy (testingDayTime classSchedule)
              \<and> testingDayTime classSchedule \<noteq> Some (regularTime classSchedule)
           then \<lparr>timeText = the (testingDayTime classSchedule),
                 noteText = '' (Testing Day)'', needsReview = False\<rparr>
           else \<lparr>timeText = regularTime classSchedule,
                 noteText = '' ('' @ warningSign
                          @ '' Testing Day - update testing_day_time when known)'',
                 needsReview = True\<rparr>)
      | Regular \<Rightarrow>
          \<lparr>timeText = regularTime classSchedule, noteText = [], needsReview = False\<rparr>)"

text \<open>
  \<open>getTimeForScheduleType\<close> itself reads the class file and parses it first. The file
  content (\<open>None\<close> when the file is missing) and the parser are parameters; a missing
  or empty file and an unparsable one give the fixed fallback answers.
\<close>

definition getTimeForScheduleType ::
  "(string \<Rightarrow> ClassSchedule option) \<Rightarrow> string option \<Rightarrow> ScheduleType \<Rightarrow> TimeForSchedule" where
  "getTimeForScheduleType parseClassSchedule content scheduleType =
     (if \<not> truthy content
      then \<lparr>timeText = ''12:00'', noteText = ''Class file not found'', needsReview = True\<rparr>
      else
        (case parseClassSchedule (the content) of
           None \<Rightarrow>
             \<lparr>timeText = ''12:00'', noteText = ''Could not parse class schedule'',
              needsReview = True\<rparr>
         | Some classSchedule \<Rightarrow> timeForScheduleType classSchedule scheduleType))"

section \<open>Recurrence dates: \<open>calculateClassDates\<close>\<close>

text \<open>
  A calendar date is the number of its day, counted from 1970-01-01 (day 0, a
  Thursday), in the proleptic Gregorian calendar; \<open>daysFromCivil\<close> gives the day that a
  year, a month and a day of the month name, \<open>civilFromDays\<close> goes back, and
  \<open>isoDateText\<close> writes the day as \<open>YYYY-MM-DD\<close>.
\<close>

definition daysFromCivil :: "int \<Rightarrow> int \<Rightarrow> int \<Rightarrow> int" where
  "daysFromCivil y m d =
     (let y' = (if m \<le> 2 then y - 1 else y);
          era = y' div 400;
          yoe = y' - era * 400;
          doy = (153 * (m + (if m > 2 then - 3 else 9)) + 2) div 5 + d - 1;
          doe = yoe * 365 + yoe div 4 - yoe div 100 + doy
      in era * 146097 + doe - 719468)"

definition civilFromDays :: "int \<Rightarrow> int \<times> int \<times> int" where
  "civilFromDays z =
     (let z' = z + 719468;
          era = z' div 146097;
          doe = z' - era * 146097;
          yoe = (doe - doe div 1460 + doe div 36524 - doe div 146096) div 365;
          doy = doe - (365 * yoe + yoe div 4 - yoe div 100);
          mp = (5 * doy + 2) div 153;
          d = doy - (153 * mp + 2) div 5 + 1;
          m = (if mp < 10 then mp + 3 else mp - 9);
          y = yoe + era * 400
      in (if m \<le> 2 then y + 1 else y, m, d))"

definition isoDateText :: "int \<Rightarrow> string" where
  "isoDateText z =
     (case civilFromDays z of
        (y, m, d) \<Rightarrow>
          twoDigits (nat (y div 100)) @ twoDigits (nat (y mod 100)) @ ''-''
          @ twoDigits (nat m) @ ''-'' @ twoDigits (nat d))"

text \<open>
  A \<open>Date\<close> object of this method is local midnight of a day, and stays a local
  midnight under \<open>setDate(getDate() + n)\<close>; it is represented by its local day number,
  and the invalid date by \<open>None\<close>. The host's time zone is the function \<open>utcOffset\<close>: the
  minutes by which local time is ahead of UTC at local midnight of a day. Offsets lie
  between -12:00 and +14:00 (a value outside is read as the nearer of the two). A date
  is valid when its instant lies within 100 000 000 days of 1970-01-01 UTC.
\<close>

definition utcMinutes :: "(int \<Rightarrow> int) \<Rightarrow> int \<Rightarrow> int" where
  "utcMinutes utcOffset d = d * 1440 - max (- 720) (min 840 (utcOffset d))"

definition timeClip :: "(int \<Rightarrow> int) \<Rightarrow> int \<Rightarrow> int option" where
  "timeClip utcOffset d =
     (if \<bar>utcMinutes utcOffset d\<bar> \<le> 100000000 * 1440 then Some d else None)"

text \<open>
  \<open>new Date(year, month, date)\<close> with a month counted from 0: a month outside 0 to 11
  carries into the year, the day of the month counts on from the first of the month,
  and a year from 0 to 99 is read as 1900 plus that year.
\<close>

definition makeDay :: "int \<Rightarrow> int \<Rightarrow> int \<Rightarrow> int" where
  "makeDay year month date =
     daysFromCivil (year + month div 12) (month mod 12 + 1) 1 + date - 1"

definition newDate :: "(int \<Rightarrow> int) \<Rightarrow> int \<Rightarrow> int \<Rightarrow> int \<Rightarrow> int option" where
  "newDate utcOffset year month date =
     timeClip utcOffset
       (makeDay (if 0 \<le> year \<and> year \<le> 99 then 1900 + year else year) month date)"

text \<open>\<open>getDay()\<close> reads the local weekday.\<close>

definition getDay :: "int \<Rightarrow> int" where
  "getDay d = (d + 4) mod 7"

text \<open>\<open>toISOString().split('T')[0]\<close> is the UTC date of the instant: the day itself where
  local time is not ahead of UTC, and the day before where it is.\<close>

definition toISODate :: "(int \<Rightarrow> int) \<Rightarrow> int \<Rightarrow> int" where
  "toISODate utcOffset d = utcMinutes utcOffset d div 1440"

text \<open>
  The lookup \<open>dayMap[dayOfWeek]\<close>: the seven names are the object's own properties. A
  name that \<open>Object.prototype\<close> defines is found as well; its value is no number and no
  \<open>undefined\<close>, so the method goes on with it and the date becomes invalid.
\<close>

definition dayMap :: "string \<Rightarrow> int option" where
  "dayMap dayOfWeek =
     (if dayOfWeek = ''Sunday'' then Some 0
      else if dayOfWeek = ''Monday'' then Some 1
      else if dayOfWeek = ''Tuesday'' then Some 2
      else if dayOfWeek = ''Wednesday'' then Some 3
      else if dayOfWeek = ''Thursday'' then Some 4
      else if dayOfWeek = ''Friday'' then Some 5
      else if dayOfWeek = ''Saturday'' then Some 6
      else None)"

definition objectPrototypeKeys :: "string list" where
  "objectPrototypeKeys =
     [''constructor'', ''hasOwnProperty'', ''isPrototypeOf'', ''propertyIsEnumerable'',
      ''toLocaleString'', ''toString'', ''valueOf'', ''__proto__'', ''__defineGetter__'',
      ''__defineSetter__'', ''__lookupGetter__'', ''__lookupSetter__'']"

text \<open>The errors of the method: its own for an unknown weekday name, and the
  \<open>RangeError\<close> of \<open>toISOString\<close> on an invalid date.\<close>

datatype calendarError = InvalidDayOfWeek string | InvalidTimeValue

text \<open>The \<open>while (dates.length < duration)\<close> loop, on the current date and the dates
  collected so far.\<close>

function generateDates ::
  "(int \<Rightarrow> int) \<Rightarrow> int list \<Rightarrow> nat \<Rightarrow> int option \<Rightarrow> int list
     \<Rightarrow> calendarError + int list" where
  "generateDates utcOffset holidays duration currentDate dates =
     (if length dates < duration then
        (case currentDate of
           None \<Rightarrow> Inl InvalidTimeValue
         | Some d \<Rightarrow>
             (let dateString = toISODate utcOffset d in
              generateDates utcOffset holidays duration (timeClip utcOffset (d + 7))
                (if dateString \<notin> set holidays then dates @ [dateString] else dates)))
      else Inr dates)"
  by pat_completeness auto
termination
proof (relation "measure (\<lambda>(u, hs, n, cur, ds).
    case cur of None \<Rightarrow> 0 | Some d \<Rightarrow> 1 + nat (100000001 - d))", goal_cases)
  case 1
  show ?case by simp
next
  case (2 utcOffset holidays duration currentDate dates d dateString)
  show ?case
  proof (cases "timeClip utcOffset (d + 7)")
    case None
    then show ?thesis using 2 by simp
  next
    case (Some d')
    then have "d' = d + 7" and "\<bar>utcMinutes utcOffset (d + 7)\<bar> \<le> 100000000 * 1440"
      by (auto simp: timeClip_def split: if_splits)
    then have "d' = d + 7" and "d + 7 \<le> 100000000"
      by (auto simp: utcMinutes_def)
    then show ?thesis using 2 Some by simp
  qed
qed

declare generateDates.simps [simp del]

text \<open>
  \<open>calculateClassDates(startDate, dayOfWeek, duration)\<close>; \<open>year\<close>, \<open>month\<close> and \<open>day\<close> are
  the numbers that the three pieces of the start text stand for, and \<open>holidays\<close> the days
  that the holiday texts name. An unknown weekday name throws.
\<close>

definition calculateClassDates ::
  "(int \<Rightarrow> int) \<Rightarrow> int list \<Rightarrow> int \<Rightarrow> int \<Rightarrow> int \<Rightarrow> string \<Rightarrow> nat
     \<Rightarrow> calendarError + int list" where
  "calculateClassDates utcOffset holidays year month day dayOfWeek duration =
     (case dayMap dayOfWeek of
        None \<Rightarrow>
          (if dayOfWeek \<in> set objectPrototypeKeys
           then generateDates utcOffset holidays duration None []
           else Inl (InvalidDayOfWeek dayOfWeek))
      | Some targetDay \<Rightarrow>
          (let currentDate =
                 (case newDate utcOffset year (month - 1) day of
                    None \<Rightarrow> None
                  | Some startDate \<Rightarrow>
                      (let currentDay = getDay startDate in
                       if currentDay \<noteq> targetDay
                       then timeClip utcOffset (startDate + (targetDay - currentDay + 7) mod 7)
                       else Some startDate))
           in generateDates utcOffset holidays duration currentDate []))"

text \<open>The dates a weekly recurrence visits from a first date on: the first date and
  every whole number of weeks after it.\<close>

definition candidates :: "int \<Rightarrow> int set" where
  "candidates cur = {c. \<exists>k::nat. c = cur + 7 * int k}"

text \<open>Two hosts, for concrete runs: one five hours behind UTC and one an hour ahead of
  it.\<close>

definition behindUTC :: "int \<Rightarrow> int" where
  "behindUTC d = - 300"

definition centralEurope :: "int \<Rightarrow> int" where
  "centralEurope d = 60"

section \<open>Plan documents: lines, white space, entry headers\<close>

definition nl :: char where
  "nl = CHR 0x0A"

definition cr :: char where
  "cr = CHR 0x0D"

text \<open>\<open>content.split('\n')\<close>: the pieces between line feeds; the empty text gives one
  empty piece.\<close>

fun splitLines :: "string \<Rightarrow> string list" where
  "splitLines [] = [[]]"
| "splitLines (c # cs) =
     (if c = nl then [] # splitLines cs
      else (c # hd (splitLines cs)) # tl (splitLines cs))"

text \<open>\<open>lines.join('\n')\<close>.\<close>

fun joinLines :: "string list \<Rightarrow> string" where
  "joinLines [] = []"
| "joinLines [l] = l"
| "joinLines (l # ls) = l @ nl # joinLines ls"

text \<open>
  Texts are UTF-8 byte strings, so a code point outside ASCII stands in a text as the
  bytes of its encoding. The line terminators, after which \<open>^\<close> matches and before which
  \<open>$\<close> matches under the \<open>m\<close> flag, are line feed, carriage return, U+2028 and U+2029.
  White space as \<open>\s\<close> and \<open>trim()\<close> see it is made of the line terminators and of tab,
  vertical tab, form feed, blank, U+00A0, U+1680, U+2000 to U+200A, U+202F, U+205F,
  U+3000 and U+FEFF.
\<close>

definition lineSeparator :: string where
  "lineSeparator = [CHR 0xE2, CHR 0x80, CHR 0xA8]"

definition paragraphSeparator :: string where
  "paragraphSeparator = [CHR 0xE2, CHR 0x80, CHR 0xA9]"

definition lineTerminators :: "string list" where
  "lineTerminators = [[nl], [cr], lineSeparator, paragraphSeparator]"

definition whiteSpaces :: "string list" where
  "whiteSpaces =
     [[CHR 0x09], [nl], [CHR 0x0B], [CHR 0x0C], [cr], [CHR 0x20],
      [CHR 0xC2, CHR 0xA0], [CHR 0xE1, CHR 0x9A, CHR 0x80],
      [CHR 0xE2, CHR 0x80, CHR 0x80], [CHR 0xE2, CHR 0x80, CHR 0x81],
      [CHR 0xE2, CHR 0x80, CHR 0x82], [CHR 0xE2, CHR 0x80, CHR 0x83],
      [CHR 0xE2, CHR 0x80, CHR 0x84], [CHR 0xE2, CHR 0x80, CHR 0x85],
      [CHR 0xE2, CHR 0x80, CHR 0x86], [CHR 0xE2, CHR 0x80, CHR 0x87],
      [CHR 0xE2, CHR 0x80, CHR 0x88], [CHR 0xE2, CHR 0x80, CHR 0x89],
      [CHR 0xE2, CHR 0x80, CHR 0x8A], lineSeparator, paragraphSeparator,
      [CHR 0xE2, CHR 0x80, CHR 0xAF], [CHR 0xE2, CHR 0x81, CHR 0x9F],
      [CHR 0xE3, CHR 0x80, CHR 0x80], [CHR 0xEF, CHR 0xBB, CHR 0xBF]]"

text \<open>The bytes that occur in white space.\<close>

definition spaceBytes :: "char set" where
  "spaceBytes = set (concat whiteSpaces)"

text \<open>The code points of a class that stand at the front of a text, one after the
  other, as far as they go.\<close>

function seqRun :: "string list \<Rightarrow> string \<Rightarrow> string list" where
  "seqRun seqs s =
     (case find (\<lambda>w. w \<noteq> [] \<and> prefix w s) seqs of
        None \<Rightarrow> []
      | Some w \<Rightarrow> w # seqRun seqs (drop (length w) s))"
  by pat_completeness auto
termination
proof (relation "measure (\<lambda>(seqs, s). length s)", goal_cases)
  case 1
  show ?case by simp
next
  case (2 seqs s w)
  then have "w \<noteq> [] \<and> prefix w s" by (auto simp: find_Some_iff)
  then show ?case by (cases w) (auto simp: prefix_def)
qed

declare seqRun.simps [simp del]

text \<open>\<open>\s*\<close> at the front of a text takes all the white space there is: the white space
  taken, code point by code point, and the text left.\<close>

definition spaceRun :: "string \<Rightarrow> string list" where
  "spaceRun s = seqRun whiteSpaces s"

definition takeSpaces :: "string \<Rightarrow> string" where
  "takeSpaces s = concat (spaceRun s)"

definition dropSpaces :: "string \<Rightarrow> string" where
  "dropSpaces s = drop (length (takeSpaces s)) s"

text \<open>\<open>s.trim()\<close> takes the white space off both ends; seen from the end of the text the
  encodings stand reversed.\<close>

definition trimEnd :: "string \<Rightarrow> string" where
  "trimEnd s = rev (drop (length (concat (seqRun (map rev whiteSpaces) (rev s)))) (rev s))"

definition trim :: "string \<Rightarrow> string" where
  "trim s = trimEnd (dropSpaces s)"

text \<open>A text that ends with a line terminator: \<open>^\<close> matches after it.\<close>

definition endsLine :: "string \<Rightarrow> bool" where
  "endsLine s = (\<exists>t \<in> set lineTerminators. suffix t s)"

text \<open>
  \<open>lines[i].match(/^## (\d{1,2}:\d{2}) - /)\<close>: the line begins with two hashes and a
  blank, a time of one or two digits, a colon and two digits, and blank, dash, blank.
  The result is the captured time text.
\<close>

definition matchClassHeader :: "string \<Rightarrow> string option" where
  "matchClassHeader line =
     (if take 3 line = ''## '' then
        (let r = drop 3 line in
         if 8 \<le> length r \<and> isDigit (r ! 0) \<and> isDigit (r ! 1) \<and> r ! 2 = CHR '':''
            \<and> isDigit (r ! 3) \<and> isDigit (r ! 4) \<and> take 3 (drop 5 r) = '' - ''
         then Some (take 5 r)
         else if 7 \<le> length r \<and> isDigit (r ! 0) \<and> r ! 1 = CHR '':''
            \<and> isDigit (r ! 2) \<and> isDigit (r ! 3) \<and> take 3 (drop 4 r) = '' - ''
         then Some (take 4 r)
         else None)
      else None)"

section \<open>Plan document merger: \<open>ParserService.insertClassByTimeFixed\<close>\<close>

record ExistingTime =
  existingTime :: string
  existingMinutes :: int
  lineIndex :: nat

text \<open>The first loop: every header line gives an entry of \<open>existingTimes\<close>, and a header
  whose minutes equal the new minutes sets \<open>timeConflict\<close>. The argument \<open>i\<close> is the index
  of the first line of the list.\<close>

fun collectTimes :: "int \<Rightarrow> string list \<Rightarrow> nat \<Rightarrow> ExistingTime list \<times> bool" where
  "collectTimes newTimeMinutes [] i = ([], False)"
| "collectTimes newTimeMinutes (l # ls) i =
     (case collectTimes newTimeMinutes ls (Suc i) of
        (existingTimes, timeConflict) \<Rightarrow>
          (case matchClassHeader l of
             None \<Rightarrow> (existingTimes, timeConflict)
           | Some t \<Rightarrow>
               (\<lparr>existingTime = t, existingMinutes = parseTimeToMinutes t, lineIndex = i\<rparr>
                  # existingTimes,
                newTimeMinutes = parseTimeToMinutes t \<or> timeConflict)))"

text \<open>
  The backward loop \<open>for (i = insertIndex - 1; i >= 0; i--)\<close>: the argument counts
  \<open>i + 1\<close>. A divider line ends the search with its index; a line that is neither
  blank nor a class header ends it without a divider; blank lines and class headers are
  passed over.
\<close>

fun findDividerAbove :: "string list \<Rightarrow> nat \<Rightarrow> nat option" where
  "findDividerAbove lines 0 = None"
| "findDividerAbove lines (Suc i) =
     (if trim (lines ! i) = ''---'' then Some i
      else if trim (lines ! i) \<noteq> [] \<and> matchClassHeader (lines ! i) = None then None
      else findDividerAbove lines i)"

text \<open>
  \<open>classEntry.replace(/^---\s*\n?/gm, '')\<close>: at the start of the text and after every
  line terminator, three dashes are removed together with all white space that follows
  (which takes any line feeds with it). The first argument is the text that stands
  before the position, which \<open>^\<close> looks at.
\<close>

function stripLeadingDividers :: "string \<Rightarrow> string \<Rightarrow> string" where
  "stripLeadingDividers preceding [] = []"
| "stripLeadingDividers preceding (c # cs) =
     (if (preceding = [] \<or> endsLine preceding) \<and> take 3 (c # cs) = ''---'' then
        (let rest = drop 3 (c # cs) in
         stripLeadingDividers (preceding @ ''---'' @ takeSpaces rest) (dropSpaces rest))
      else c # stripLeadingDividers (preceding @ [c]) cs)"
  by pat_completeness auto
termination
  by (relation "measure (\<lambda>(b, s). length s)") (auto simp: dropSpaces_def)

declare stripLeadingDividers.simps [simp del]

text \<open>
  \<open>.replace(/\n---\s*$/gm, '')\<close>: a line feed and three dashes are removed together
  with the white space after them, as far as that white space reaches the end of the
  text or, failing that, as far as its last line terminator (which stays). Where the
  white space after the dashes neither reaches the end nor holds a line terminator,
  nothing is removed. \<open>splitAtLastTerminator\<close> cuts a run of white space, given code point
  by code point, in front of its last line terminator.
\<close>

definition splitAtLastTerminator :: "string list \<Rightarrow> (string \<times> string) option" where
  "splitAtLastTerminator ws =
     (let tailPart = rev (takeWhile (\<lambda>w. w \<notin> set lineTerminators) (rev ws)) in
      if length tailPart = length ws then None
      else Some (concat (take (length ws - length tailPart - 1) ws),
                 concat (drop (length ws - length tailPart - 1) ws)))"

function stripTrailingDividers :: "string \<Rightarrow> string" where
  "stripTrailingDividers [] = []"
| "stripTrailingDividers (c # cs) =
     (if c = nl \<and> take 3 cs = ''---'' then
        (let rest = drop 3 cs;
             ws = spaceRun rest;
             after = dropSpaces rest
         in if after = [] then []
            else (case splitAtLastTerminator ws of
                    None \<Rightarrow> c # stripTrailingDividers cs
                  | Some (removed, kept) \<Rightarrow> stripTrailingDividers (kept @ after)))
      else c # stripTrailingDividers cs)"
  by pat_completeness auto
termination
proof (relation "measure length", goal_cases)
  case 1
  show ?case by simp
next
  case (2 c cs)
  show ?case by simp
next
  case (3 c cs rest ws after x2 removed kept)
  have "concat ws = concat (take (length ws - length (takeWhile (\<lambda>w. w \<notin> set lineTerminators) (rev ws)) - 1) ws)
          @ concat (drop (length ws - length (takeWhile (\<lambda>w. w \<notin> set lineTerminators) (rev ws)) - 1) ws)"
    by (simp only: concat_append [symmetric] append_take_drop_id)
  with 3 have k: "length kept \<le> length (concat ws)"
    by (auto simp: splitAtLastTerminator_def Let_def split: if_splits)
  have r: "prefix (concat (seqRun seqs s)) s" for seqs s
  proof (induction seqs s rule: seqRun.induct)
    case (1 seqs s)
    show ?case
    proof (cases "find (\<lambda>w. w \<noteq> [] \<and> prefix w s) seqs")
      case None
      then show ?thesis by (subst seqRun.simps) simp
    next
      case (Some w)
      then have "prefix w s" by (auto simp: find_Some_iff)
      then obtain r where s: "s = w @ r" by (auto simp: prefix_def)
      from "1.IH" [OF Some] have "prefix (concat (seqRun seqs r)) r" by (simp add: s)
      then show ?thesis using Some by (subst seqRun.simps) (simp add: s)
    qed
  qed
  have "length (concat ws) + length after = length rest"
    using 3 r [of whiteSpaces rest]
    by (auto simp: dropSpaces_def takeSpaces_def spaceRun_def prefix_def)
  moreover have "length rest \<le> length cs" using 3 by simp
  ultimately show ?case using k by simp
next
  case (4 c cs)
  show ?case by simp
qed

declare stripTrailingDividers.simps [simp del]

text \<open>The answer \<open>{ content, conflict }\<close>; the field \<open>content\<close> is written
  \<open>newContent\<close> here.\<close>

record InsertResult =
  newContent :: string
  conflict :: bool

definition insertClassByTimeFixed ::
  "string \<Rightarrow> string \<Rightarrow> string \<Rightarrow> string \<Rightarrow> InsertResult" where
  "insertClassByTimeFixed content classEntry newTime className =
     (let lines = splitLines content;
          newTimeMinutes = parseTimeToMinutes newTime
      in case collectTimes newTimeMinutes lines 0 of
        (existingTimes, timeConflict) \<Rightarrow>
          (case find (\<lambda>existing. newTimeMinutes < existingMinutes existing)
                  (sort_key existingMinutes existingTimes) of
             None \<Rightarrow>
               \<lparr>newContent = content @ [nl] @ classEntry @ [nl], conflict = timeConflict\<rparr>
           | Some existing \<Rightarrow>
               (let insertIndex = lineIndex existing;
                    divider = findDividerAbove lines insertIndex;
                    actualInsertIndex = (case divider of None \<Rightarrow> insertIndex | Some i \<Rightarrow> i);
                    foundExistingDivider = (divider \<noteq> None);
                    cleanedClassEntry =
                      stripTrailingDividers (stripLeadingDividers [] classEntry);
                    classEntryLines = splitLines (trim cleanedClassEntry);
                    insertContent =
                      (if foundExistingDivider
                       then [''---'', []] @ classEntryLines @ [[]]
                       else classEntryLines @ [[], ''---''])
                in \<lparr>newContent =
                      joinLines (take actualInsertIndex lines @ insertContent
                                 @ drop actualInsertIndex lines),
                    conflict = timeConflict\<rparr>)))"

section \<open>The entry text of \<open>createDailyPlanEntry\<close>\<close>

text \<open>A whole number in a template literal: its decimal digits. This is how numbers
  below \<open>2\<^sup>5\<^sup>3\<close> print, the positions in a list of dates among them; from \<open>10\<^sup>2\<^sup>1\<close> on
  a number prints with an exponent.\<close>

fun showNat :: "nat \<Rightarrow> string" where
  "showNat n = (if n < 10 then [digitChar n] else showNat (n div 10) @ [digitChar (n mod 10)])"

declare showNat.simps [simp del]

definition classHeaderLine :: "string \<Rightarrow> string \<Rightarrow> string \<Rightarrow> string" where
  "classHeaderLine classTime className scheduleNote =
     ''## '' @ classTime @ '' - '' @ className @ scheduleNote"

definition transclusionRef :: "string \<Rightarrow> nat \<Rightarrow> string" where
  "transclusionRef unitName dayNumber = ''![['' @ unitName @ ''#Day '' @ showNat dayNumber @ '']]''"

definition classEntryText ::
  "string \<Rightarrow> string \<Rightarrow> string \<Rightarrow> string \<Rightarrow> nat \<Rightarrow> nat \<Rightarrow> string" where
  "classEntryText classTime className scheduleNote unitName dayNumber totalDays =
     [nl, nl] @ classHeaderLine classTime className scheduleNote @ [nl, nl]
     @ ''**Unit:** [['' @ unitName @ '']]  '' @ [nl]
     @ ''**Day:** '' @ showNat dayNumber @ '' of '' @ showNat totalDays @ ''  '' @ [nl]
     @ ''**Lesson:** Day '' @ showNat dayNumber @ [nl, nl]
     @ ''### Quick Reference'' @ [nl, nl]
     @ transclusionRef unitName dayNumber @ [nl, nl]
     @ ''---'' @ [nl, nl]"

section \<open>Merging entries into one document\<close>

text \<open>One merge as \<open>createDailyPlanEntry\<close> performs it on the document text: the entry
  text is built from the template and handed to \<open>insertClassByTimeFixed\<close>.\<close>

record PlanEntry =
  entryTime :: string
  entryClass :: string
  entryNote :: string
  entryUnit :: string
  entryDay :: nat
  entryTotal :: nat

definition entryText :: "PlanEntry \<Rightarrow> string" where
  "entryText e =
     classEntryText (entryTime e) (entryClass e) (entryNote e) (entryUnit e)
       (entryDay e) (entryTotal e)"

definition entryHeader :: "PlanEntry \<Rightarrow> string" where
  "entryHeader e = classHeaderLine (entryTime e) (entryClass e) (entryNote e)"

definition mergeEntry :: "string \<Rightarrow> PlanEntry \<Rightarrow> InsertResult" where
  "mergeEntry content e = insertClassByTimeFixed content (entryText e) (entryTime e) (entryClass e)"

definition mergeAll :: "string \<Rightarrow> PlanEntry list \<Rightarrow> string" where
  "mergeAll content es = foldl (\<lambda>c e. newContent (mergeEntry c e)) content es"

text \<open>The lines of an entry as they stand in a document: the header and the body.\<close>

definition entryLines :: "PlanEntry \<Rightarrow> string list" where
  "entryLines e =
     [entryHeader e, [],
      ''**Unit:** [['' @ entryUnit e @ '']]  '',
      ''**Day:** '' @ showNat (entryDay e) @ '' of '' @ showNat (entryTotal e) @ ''  '',
      ''**Lesson:** Day '' @ showNat (entryDay e),
      [], ''### Quick Reference'', [],
      transclusionRef (entryUnit e) (entryDay e)]"

text \<open>The merge on the lines of a document: what \<open>insertClassByTimeFixed\<close> does to
  them for an entry built from the template (see \<open>mergeEntry_lines\<close>).\<close>

definition mergeLines :: "string list \<Rightarrow> PlanEntry \<Rightarrow> string list" where
  "mergeLines ls e =
     (case find (\<lambda>x. parseTimeToMinutes (entryTime e) < existingMinutes x)
             (sort_key existingMinutes
                (fst (collectTimes (parseTimeToMinutes (entryTime e)) ls 0))) of
        None \<Rightarrow> ls @ [[], []] @ entryLines e @ [[], ''---'', [], [], []]
      | Some x \<Rightarrow>
          (case findDividerAbove ls (lineIndex x) of
             None \<Rightarrow> take (lineIndex x) ls @ entryLines e @ [[], ''---''] @ drop (lineIndex x) ls
           | Some a \<Rightarrow> take a ls @ [''---'', []] @ entryLines e @ [[]] @ drop a ls))"

text \<open>A text without line terminators, as class names, unit names, time texts and
  schedule notes are. In an entry of the assignment loop the header ends with the class
  name and the schedule note, one after the other, and the two numbers are positions in
  a list of dates, which a template literal prints in decimal digits (as it does every
  whole number below \<open>2\<^sup>5\<^sup>3\<close>).\<close>

definition noBreaks :: "string \<Rightarrow> bool" where
  "noBreaks s = (\<forall>t \<in> set lineTerminators. \<not> sublist t s)"

definition plainEntry :: "PlanEntry \<Rightarrow> bool" where
  "plainEntry e =
     (noBreaks (entryTime e) \<and> noBreaks (entryClass e @ entryNote e)
      \<and> noBreaks (entryUnit e) \<and> entryDay e < 2 ^ 53 \<and> entryTotal e < 2 ^ 53)"

subsection \<open>The shape of a document\<close>

text \<open>An entry block begins at a line that starts with two hashes and a blank (every
  header the merge writes does, whatever the time text); a delimiter is a line that is
  three dashes once trimmed.\<close>

definition isEntryHeader :: "string \<Rightarrow> bool" where
  "isEntryHeader l = (take 3 l = ''## '')"

definition isDivider :: "string \<Rightarrow> bool" where
  "isDivider l = (trim l = ''---'')"

definition isBlank :: "string \<Rightarrow> bool" where
  "isBlank l = (trim l = [])"

text \<open>The number of delimiter lines from the start of a list of lines to its first
  entry header, and, for every entry header of a document in order, the number of
  delimiter lines between it and the next entry header (or the end).\<close>

fun dividersAhead :: "string list \<Rightarrow> nat" where
  "dividersAhead [] = 0"
| "dividersAhead (l # ls) =
     (if isEntryHeader l then 0 else (if isDivider l then 1 else 0) + dividersAhead ls)"

fun dividerCounts :: "string list \<Rightarrow> nat list" where
  "dividerCounts [] = []"
| "dividerCounts (l # ls) =
     (if isEntryHeader l then dividersAhead ls # dividerCounts ls else dividerCounts ls)"

text \<open>The times of the class headers of a document, top to bottom, in minutes.\<close>

definition headerMinutes :: "string list \<Rightarrow> int list" where
  "headerMinutes ls = map parseTimeToMinutes (List.map_filter matchClassHeader ls)"

text \<open>
  A scan of the lines that keeps track of where it is: before the first entry, inside
  an entry (after its header, before its delimiter), or after an entry's delimiter,
  where only blank lines may come before the next header. Anything else breaks the
  shape.
\<close>

datatype scanState = BeforeEntries | InEntry | AfterDivider | Broken

fun scanStep :: "scanState \<Rightarrow> string \<Rightarrow> scanState" where
  "scanStep BeforeEntries l = (if isEntryHeader l then InEntry else BeforeEntries)"
| "scanStep InEntry l =
     (if isEntryHeader l then Broken else if isDivider l then AfterDivider else InEntry)"
| "scanStep AfterDivider l =
     (if isEntryHeader l then InEntry else if isBlank l then AfterDivider else Broken)"
| "scanStep Broken l = Broken"

definition scanFrom :: "scanState \<Rightarrow> string list \<Rightarrow> scanState" where
  "scanFrom s ls = foldl scanStep s ls"

definition wellShaped :: "string list \<Rightarrow> bool" where
  "wellShaped ls = (scanFrom BeforeEntries ls = BeforeEntries \<or> scanFrom BeforeEntries ls = AfterDivider)"

subsection \<open>Sample documents and entries\<close>

text \<open>The skeleton of a new daily plan, as \<open>createDailyPlanEntry\<close> writes it for
  2025-01-07.\<close>

definition emptyPlan :: string where
  "emptyPlan = joinLines
     [''---'', ''date: 2025-01-07'',
      ''day_of_week: '' @ [CHR 0x22] @ ''Tuesday'' @ [CHR 0x22],
      ''classes: []'', ''---'', [], ''# Tuesday, January 7, 2025'']"

text \<open>A plan edited by hand: the entry for Art is a bare header so far.\<close>

definition handEditedPlan :: string where
  "handEditedPlan = joinLines
     [''---'', ''date: 2025-01-07'', ''---'', [],
      ''## 8:00 - Math'', [], ''Fractions, day 2'', [], ''---'', [],
      ''## 9:00 - Art'', [],
      ''## 11:00 - Music'', [], ''Rhythm, day 1'', [], ''---'']"

text \<open>A plan without entries whose last line is three dashes and a no-break space
  (U+00A0).\<close>

definition nbspPlan :: string where
  "nbspPlan = joinLines [''# Plan'', ''---'' @ [CHR 0xC2, CHR 0xA0]]"

definition planEntry :: "string \<Rightarrow> string \<Rightarrow> string \<Rightarrow> PlanEntry" where
  "planEntry t c u =
     \<lparr>entryTime = t, entryClass = c, entryNote = [], entryUnit = u,
      entryDay = 1, entryTotal = 3\<rparr>"

section \<open>File service and daily plan entries: \<open>createDailyPlanEntry\<close>\<close>

text \<open>
  The vault maps normalized paths to file contents; the service keeps a cache of the
  contents it has read or written. \<open>normalizePath\<close> is the host's function. The vault is
  taken to accept every read and write.
\<close>

record FileService =
  rootPath :: string
  normalizePath :: "string \<Rightarrow> string"
  vault :: "string \<rightharpoonup> string"
  cache :: "string \<rightharpoonup> string"

definition getFullPath :: "FileService \<Rightarrow> string \<Rightarrow> string" where
  "getFullPath fs relativePath = normalizePath fs (rootPath fs @ ''/'' @ relativePath)"

text \<open>
  \<open>fileExists\<close> is an \<open>async\<close> method: a call returns a promise of the answer. A
  promise is an object, and every object counts as true in a condition; only \<open>await\<close>
  gives the answer itself.
\<close>

datatype 'a promise = Promise 'a

definition await :: "'a promise \<Rightarrow> 'a" where
  "await p = (case p of Promise x \<Rightarrow> x)"

definition promiseTruthy :: "'a promise \<Rightarrow> bool" where
  "promiseTruthy p = True"

definition fileExists :: "FileService \<Rightarrow> string \<Rightarrow> bool promise" where
  "fileExists fs path = Promise (vault fs (normalizePath fs path) \<noteq> None)"

text \<open>\<open>await readFile(path)\<close>: the cached content, else the vault's content (which is
  then cached), else \<open>null\<close>.\<close>

definition readFile :: "FileService \<Rightarrow> string \<Rightarrow> string option \<times> FileService" where
  "readFile fs path =
     (let normalizedPath = normalizePath fs path in
      case cache fs normalizedPath of
        Some c \<Rightarrow> (Some c, fs)
      | None \<Rightarrow>
          (case vault fs normalizedPath of
             None \<Rightarrow> (None, fs)
           | Some c \<Rightarrow> (Some c, fs\<lparr>cache := (cache fs)(normalizedPath \<mapsto> c)\<rparr>)))"

definition writeFile :: "FileService \<Rightarrow> string \<Rightarrow> string \<Rightarrow> bool \<times> FileService" where
  "writeFile fs path content =
     (let normalizedPath = normalizePath fs path in
      (True, fs\<lparr>vault := (vault fs)(normalizedPath \<mapsto> content),
               cache := (cache fs)(normalizedPath \<mapsto> content)\<rparr>))"

text \<open>\<open>createFile\<close>: the vault refuses to create a file that exists; the service
  catches the error and answers false.\<close>

definition createFile :: "FileService \<Rightarrow> string \<Rightarrow> string \<Rightarrow> bool \<times> FileService" where
  "createFile fs path content =
     (let normalizedPath = normalizePath fs path in
      if vault fs normalizedPath \<noteq> None then (False, fs)
      else (True, fs\<lparr>vault := (vault fs)(normalizedPath \<mapsto> content),
                     cache := (cache fs)(normalizedPath \<mapsto> content)\<rparr>))"

subsection \<open>The duplicate check\<close>

text \<open>
  \<open>new RegExp(`## [^\n]*${escaped className}[^\n]*$`, 'm').test(text)\<close>: somewhere in
  the text stand two hashes and a blank, then characters other than line feeds, then
  the class name (literally: its special characters are escaped). The rest of the
  pattern matches the remainder of the line, whatever it is.
\<close>

definition classRegexTest :: "string \<Rightarrow> string \<Rightarrow> bool" where
  "classRegexTest className text =
     (\<exists>i \<in> {0..length text}. \<exists>j \<in> {i + 3..length text}.
        take 3 (drop i text) = ''## ''
        \<and> nl \<notin> set (take (j - (i + 3)) (drop (i + 3) text))
        \<and> length className \<le> length text - j
        \<and> take (length className) (drop j text) = className)"

subsection \<open>The frontmatter list of classes: \<open>updateClassesList\<close>\<close>

text \<open>\<open>text.indexOf(pattern, start)\<close>.\<close>

fun indexOfFrom :: "string \<Rightarrow> string \<Rightarrow> nat \<Rightarrow> nat option" where
  "indexOfFrom pattern [] start = (if pattern = [] then Some start else None)"
| "indexOfFrom pattern (c # cs) start =
     (if take (length pattern) (c # cs) = pattern then Some start
      else indexOfFrom pattern cs (Suc start))"

text \<open>
  \<open>content.match(/classes: \[(.*?)\]/s)\<close>: the first \<open>classes: [\<close> and the first closing
  bracket after it, which may stand lines below (the \<open>s\<close> flag). The result is the index
  of the match, the captured text and the index of the closing bracket.
\<close>

definition matchClassesList :: "string \<Rightarrow> (nat \<times> string \<times> nat) option" where
  "matchClassesList content =
     (case indexOfFrom ''classes: ['' content 0 of
        None \<Rightarrow> None
      | Some p \<Rightarrow>
          (case indexOfFrom '']'' (drop (p + 10) content) (p + 10) of
             None \<Rightarrow> None
           | Some q \<Rightarrow> Some (p, take (q - (p + 10)) (drop (p + 10) content), q)))"

text \<open>\<open>s.split(',')\<close>.\<close>

fun splitCommas :: "string \<Rightarrow> string list" where
  "splitCommas [] = [[]]"
| "splitCommas (c # cs) =
     (if c = CHR '','' then [] # splitCommas cs
      else (c # hd (splitCommas cs)) # tl (splitCommas cs))"

text \<open>\<open>list.join(', ')\<close>.\<close>

fun joinCommas :: "string list \<Rightarrow> string" where
  "joinCommas [] = []"
| "joinCommas [c] = c"
| "joinCommas (c # cs) = c @ '', '' @ joinCommas cs"

definition quoted :: "string \<Rightarrow> string" where
  "quoted c = [CHR 0x22] @ c @ [CHR 0x22]"

definition isQuote :: "char \<Rightarrow> bool" where
  "isQuote c = (c = CHR 0x22 \<or> c = CHR 0x27)"

text \<open>
  A replacement text given to \<open>String.replace\<close> is a template: \<open>$$\<close> stands for a dollar
  sign, \<open>$&\<close> for the matched text, \<open>$`\<close> and \<open>$'\<close> for the text before and after it,
  and \<open>$1\<close> or \<open>$01\<close> for the single captured group of this pattern; a two-digit index
  above the number of groups is read as one digit followed by a literal digit.
\<close>

fun getSubstitution :: "string \<Rightarrow> string \<Rightarrow> string \<Rightarrow> string \<Rightarrow> string \<Rightarrow> string" where
  "getSubstitution matched captured before after [] = []"
| "getSubstitution matched captured before after [c] = [c]"
| "getSubstitution matched captured before after (c # d # rest) =
     (if c \<noteq> CHR ''$'' then c # getSubstitution matched captured before after (d # rest)
      else if d = CHR ''$'' then CHR ''$'' # getSubstitution matched captured before after rest
      else if d = CHR ''&'' then matched @ getSubstitution matched captured before after rest
      else if d = CHR 0x60 then before @ getSubstitution matched captured before after rest
      else if d = CHR 0x27 then after @ getSubstitution matched captured before after rest
      else if isDigit d then
        (case rest of
           d2 # rest2 \<Rightarrow>
             if isDigit d2 \<and> 10 * digitValue d + digitValue d2 \<le> 1 then
               (if 10 * digitValue d + digitValue d2 = 1
                then captured @ getSubstitution matched captured before after rest2
                else c # d # d2 # getSubstitution matched captured before after rest2)
             else if digitValue d = 1
               then captured @ getSubstitution matched captured before after rest
               else c # d # getSubstitution matched captured before after rest
         | [] \<Rightarrow> (if digitValue d = 1 then captured else [c, d]))
      else c # getSubstitution matched captured before after (d # rest))"

datatype listAction = Add | Remove

text \<open>
  \<open>classList.sort()\<close> orders texts by their UTF-16 code units. On UTF-8 bytes that is
  the order of the bytes, except that the code points from U+E000 to U+FFFF (whose first
  byte is EE or EF) come after the code points above U+FFFF (whose first byte is F0 to
  F4), which UTF-16 writes with surrogates. \<open>utf16Order\<close> moves the two first bytes
  behind the others.
\<close>

definition utf16Order :: "string \<Rightarrow> string" where
  "utf16Order s =
     map (\<lambda>c. if c = CHR 0xEE then CHR 0xFE else if c = CHR 0xEF then CHR 0xFF else c) s"

definition updateClassesList :: "string \<Rightarrow> string \<Rightarrow> listAction \<Rightarrow> string" where
  "updateClassesList content className action =
     (case matchClassesList content of
        None \<Rightarrow>
          (case indexOfFrom ''---'' (drop 3 content) 3 of
             None \<Rightarrow> content
           | Some frontmatterEnd \<Rightarrow>
               take frontmatterEnd content
               @ ''classes: ['' @ joinCommas (if action = Add then [quoted className] else [])
               @ '']'' @ [nl]
               @ drop frontmatterEnd content)
      | Some (p, classesStr, q) \<Rightarrow>
          (let classList =
                 (if trim classesStr \<noteq> []
                  then filter (\<lambda>c. c \<noteq> [])
                         (map (\<lambda>c. filter (\<lambda>x. \<not> isQuote x) (trim c)) (splitCommas classesStr))
                  else []);
               classList' =
                 (if action = Add \<and> className \<notin> set classList then classList @ [className]
                  else if action = Remove then filter (\<lambda>c. c \<noteq> className) classList
                  else classList);
               newClassesStr = joinCommas (map quoted (sort_key utf16Order classList'))
           in take p content
              @ getSubstitution (take (Suc q - p) (drop p content)) classesStr
                  (take p content) (drop (Suc q) content)
                  (''classes: ['' @ newClassesStr @ '']'')
              @ drop (Suc q) content))"

subsection \<open>One daily plan entry\<close>

record ScheduleContext =
  ctxClassName :: string
  ctxRegularTime :: string
  ctxEarlyDismissalTime :: "string option"
  ctxTestingDayTime :: "string option"
  ctxSpecialSchedules :: SpecialSchedules

text \<open>The answer \<open>{ success, skipped?, hasScheduleWarning? }\<close>; a field that is left out
  is \<open>None\<close> and counts as false.\<close>

record EntryResult =
  success :: bool
  skipped :: "bool option"
  hasScheduleWarning :: "bool option"

definition given :: "bool option \<Rightarrow> bool" where
  "given v = (v = Some True)"

text \<open>The host's date formatting (\<open>toLocaleDateString\<close>) for the skeleton of a new
  plan: the weekday name and the long date of a date text.\<close>

record Locale =
  weekdayLong :: "string \<Rightarrow> string"
  dateLong :: "string \<Rightarrow> string"

definition newPlanSkeleton :: "Locale \<Rightarrow> string \<Rightarrow> string" where
  "newPlanSkeleton locale date =
     ''---'' @ [nl] @ ''date: '' @ date @ [nl]
     @ ''day_of_week: '' @ quoted (weekdayLong locale date) @ [nl]
     @ ''classes: []'' @ [nl] @ ''---'' @ [nl] @ [nl]
     @ ''# '' @ dateLong locale date"

text \<open>The time, the schedule note and the warning flag for the date, as the method
  computes them in line.\<close>

definition resolveClassTime :: "ScheduleContext \<Rightarrow> ScheduleType \<Rightarrow> string \<times> string \<times> bool" where
  "resolveClassTime scheduleContext scheduleType =
     (if scheduleType = EarlyDismissal then
        (if truthy (ctxEarlyDismissalTime scheduleContext)
            \<and> trim (the (ctxEarlyDismissalTime scheduleContext)) \<noteq> []
            \<and> ctxEarlyDismissalTime scheduleContext \<noteq> Some ''TBD''
         then (the (ctxEarlyDismissalTime scheduleContext), '' (Early Dismissal)'', False)
         else (ctxRegularTime scheduleContext,
               '' ('' @ warningSign @ '' Early Dismissal - using regular time, adjust manually)'',
               True))
      else if scheduleType = TestingDay then
        (if truthy (ctxTestingDayTime scheduleContext)
            \<and> ctxTestingDayTime scheduleContext \<noteq> Some (ctxRegularTime scheduleContext)
         then (the (ctxTestingDayTime scheduleContext), '' (Testing Day)'', False)
         else (ctxRegularTime scheduleContext,
               '' ('' @ warningSign
                 @ '' Testing Day - using regular time, update testing_day_time when known)'',
               True))
      else (ctxRegularTime scheduleContext, [], False))"

text \<open>An optional time that is defined and not empty, but is white space only: the two
  resolutions differ on it.\<close>

definition blankTime :: "string option \<Rightarrow> bool" where
  "blankTime v = (truthy v \<and> trim (the v) = [])"

text \<open>
  \<open>createDailyPlanEntry\<close>. The condition \<open>if (this.fileService.fileExists(path))\<close> tests
  the promise, not its answer. A \<open>null\<close> content is tested by the duplicate check as the
  text "null"; handed to \<open>insertClassByTimeFixed\<close> it raises a \<open>TypeError\<close> at
  \<open>content.split\<close>, which the \<open>catch\<close> turns into \<open>{ success: false,
  hasScheduleWarning: false }\<close>. The answers of \<open>writeFile\<close> and \<open>createFile\<close> are not
  looked at.
\<close>

definition createDailyPlanEntry ::
  "Locale \<Rightarrow> FileService \<Rightarrow> string \<Rightarrow> string \<Rightarrow> string \<Rightarrow> nat \<Rightarrow> nat \<Rightarrow> ScheduleContext
     \<Rightarrow> EntryResult \<times> FileService" where
  "createDailyPlanEntry locale fs date className unitName dayNumber totalDays scheduleContext =
     (let dailyPlanPath = getFullPath fs (''Daily Plans/'' @ date @ ''.md'');
          isExistingPlan = promiseTruthy (fileExists fs dailyPlanPath);
          (content, fs1) =
            (if isExistingPlan then readFile fs dailyPlanPath
             else (Some (newPlanSkeleton locale date), fs))
      in if classRegexTest className (case content of None \<Rightarrow> ''null'' | Some c \<Rightarrow> c)
         then (\<lparr>success = True, skipped = Some True, hasScheduleWarning = Some False\<rparr>, fs1)
         else
           (let scheduleType =
                  getScheduleTypeForDate date (ctxSpecialSchedules scheduleContext);
                (classTime, scheduleNote, warning) =
                  resolveClassTime scheduleContext scheduleType;
                classEntry =
                  classEntryText classTime className scheduleNote unitName dayNumber totalDays
            in case content of
                 None \<Rightarrow>
                   (\<lparr>success = False, skipped = None, hasScheduleWarning = Some False\<rparr>, fs1)
               | Some c \<Rightarrow>
                   (let insertResult = insertClassByTimeFixed c classEntry classTime className;
                        content' = updateClassesList (newContent insertResult) className Add;
                        fs2 = (if isExistingPlan then snd (writeFile fs1 dailyPlanPath content')
                               else snd (createFile fs1 dailyPlanPath content'))
                    in (\<lparr>success = True, skipped = None,
                         hasScheduleWarning = Some warning\<rparr>, fs2))))"

section \<open>The assignment loop of \<open>assignUnitToClassWithOptions\<close>\<close>

record Tally =
  createdPlans :: nat
  skippedPlans :: nat
  scheduleWarnings :: nat

text \<open>The \<open>for\<close> loop over the computed dates; \<open>i\<close> is the index of the first date of
  the list.\<close>

fun createEntries ::
  "Locale \<Rightarrow> FileService \<Rightarrow> string list \<Rightarrow> nat \<Rightarrow> string \<Rightarrow> string \<Rightarrow> nat \<Rightarrow> ScheduleContext
     \<Rightarrow> Tally \<Rightarrow> Tally \<times> FileService" where
  "createEntries locale fs [] i className unitName duration scheduleContext tally = (tally, fs)"
| "createEntries locale fs (date # dates) i className unitName duration scheduleContext tally =
     (case createDailyPlanEntry locale fs date className unitName (i + 1) duration
             scheduleContext of
        (result, fs') \<Rightarrow>
          createEntries locale fs' dates (Suc i) className unitName duration scheduleContext
            \<lparr>createdPlans = (if success result then createdPlans tally + 1
                             else createdPlans tally),
             skippedPlans = (if given (skipped result) then skippedPlans tally + 1
                             else skippedPlans tally),
             scheduleWarnings = (if given (hasScheduleWarning result)
                                 then scheduleWarnings tally + 1
                                 else scheduleWarnings tally)\<rparr>)"

subsection \<open>Sample vaults\<close>

definition sampleLocale :: Locale where
  "sampleLocale =
     \<lparr>weekdayLong = (\<lambda>d. ''Tuesday''), dateLong = (\<lambda>d. ''Tuesday, January 7, 2025'')\<rparr>"

definition artContext :: ScheduleContext where
  "artContext =
     \<lparr>ctxClassName = ''Art'', ctxRegularTime = ''9:00'', ctxEarlyDismissalTime = None,
      ctxTestingDayTime = None,
      ctxSpecialSchedules = \<lparr>early_dismissal = [], testing_day = []\<rparr>\<rparr>"

text \<open>A vault without any daily plan.\<close>

definition emptyVault :: FileService where
  "emptyVault =
     \<lparr>rootPath = ''20 Lesson Planning'', normalizePath = (\<lambda>p. p),
      vault = Map.empty, cache = Map.empty\<rparr>"

text \<open>The plan for 2025-01-07 with the entry of Art in it, and a vault that holds it.\<close>

definition planWithArt :: string where
  "planWithArt =
     joinLines
       [''---'', ''date: 2025-01-07'',
        ''day_of_week: '' @ quoted ''Tuesday'',
        ''classes: ['' @ quoted ''Art'' @ '']'', ''---'', [],
        ''# Tuesday, January 7, 2025'']
     @ [nl] @ classEntryText ''9:00'' ''Art'' [] ''Clay'' 1 3 @ [nl]"

definition vaultWithArt :: FileService where
  "vaultWithArt =
     emptyVault\<lparr>vault := [''20 Lesson Planning/Daily Plans/2025-01-07.md'' \<mapsto> planWithArt]\<rparr>"

text \<open>A vault that holds the skeleton of the plan for 2025-01-07.\<close>

definition vaultWithEmptyPlan :: FileService where
  "vaultWithEmptyPlan =
     emptyVault\<lparr>vault := [''20 Lesson Planning/Daily Plans/2025-01-07.md'' \<mapsto> emptyPlan]\<rparr>"

section \<open>Properties of the time codec\<close>

lemma of_char_digitChar: "n < 10 \<Longrightarrow> (of_char (digitChar n) :: nat) = 48 + n"
  by (simp add: digitChar_def)

lemma isDigit_digitChar: "n < 10 \<Longrightarrow> isDigit (digitChar n)"
  by (simp add: isDigit_def of_char_digitChar)

lemma digitValue_digitChar: "n < 10 \<Longrightarrow> digitValue (digitChar n) = int n"
  by (simp add: digitValue_def of_char_digitChar)

lemma digitValue_range: "isDigit c \<Longrightarrow> 0 \<le> digitValue c \<and> digitValue c \<le> 9"
  by (auto simp: isDigit_def digitValue_def)

lemma parseInt_one: "parseInt [a] = digitValue a"
  by (simp add: parseInt_def)

lemma parseInt_two: "parseInt [a, b] = 10 * digitValue a + digitValue b"
  by (simp add: parseInt_def)

lemma parseInt_twoDigits: "n < 100 \<Longrightarrow> parseInt (twoDigits n) = int n"
proof -
  assume n: "n < 100"
  then have d: "n div 10 < 10" and r: "n mod 10 < 10" by auto
  have "parseInt (twoDigits n) = 10 * int (n div 10) + int (n mod 10)"
    by (simp add: twoDigits_def parseInt_two digitValue_digitChar d r)
  also have "\<dots> = int n" by (simp add: zdiv_int zmod_int)
  finally show ?thesis .
qed

lemma matchTime_renderHHMM:
  "h < 100 \<Longrightarrow> m < 100 \<Longrightarrow> matchTime (renderHHMM h m) = Some (twoDigits h, twoDigits m)"
  by (simp add: renderHHMM_def twoDigits_def isDigit_digitChar)

lemma matchTime_renderHMM:
  "h < 10 \<Longrightarrow> m < 100 \<Longrightarrow> matchTime (renderHMM h m) = Some ([digitChar h], twoDigits m)"
  by (simp add: renderHMM_def twoDigits_def isDigit_digitChar)

lemma parseTimeToMinutes_renderHHMM:
  assumes "h \<le> 23" and "m \<le> 59"
  shows "parseTimeToMinutes (renderHHMM h m) =
           (if 1 \<le> h \<and> h \<le> 7 then (int h + 12) * 60 + int m else int h * 60 + int m)"
  using assms
  by (simp add: parseTimeToMinutes_def matchTime_renderHHMM parseInt_twoDigits Let_def)

lemma parseTimeToMinutes_renderHMM:
  assumes "h \<le> 9" and "m \<le> 59"
  shows "parseTimeToMinutes (renderHMM h m) =
           (if 1 \<le> h \<and> h \<le> 7 then (int h + 12) * 60 + int m else int h * 60 + int m)"
  using assms
  by (simp add: parseTimeToMinutes_def matchTime_renderHMM parseInt_twoDigits parseInt_one
      digitValue_digitChar Let_def)

lemma parseTimeToMinutesCached_agrees:
  assumes "cacheConsistent timeCache"
  shows "fst (parseTimeToMinutesCached timeCache s) = parseTimeToMinutes s
         \<and> cacheConsistent (snd (parseTimeToMinutesCached timeCache s))"
  using assms
  by (auto simp: parseTimeToMinutesCached_def parseTimeToMinutes_def cacheConsistent_def
      Let_def split: option.splits)

lemma wellFormedTime_rendered:
  assumes "wellFormedTime s"
  shows "\<exists>h m. h \<le> 23 \<and> m \<le> 59 \<and> (s = renderHHMM h m \<or> (h \<le> 9 \<and> s = renderHMM h m))"
proof -
  have dc: "digitChar (nat (digitValue c)) = c" if "isDigit c" for c
    using that by (simp add: digitChar_def digitValue_def isDigit_def nat_diff_distrib)
  have two: "twoDigits (nat (10 * digitValue a + digitValue b)) = [a, b]"
    if "isDigit a" "isDigit b" for a b
  proof -
    define x where "x = nat (digitValue a)"
    define y where "y = nat (digitValue b)"
    from that have xa: "digitValue a = int x" and yb: "digitValue b = int y"
      and x: "x < 10" and y: "y < 10"
      using digitValue_range [of a] digitValue_range [of b] by (auto simp: x_def y_def)
    have n: "nat (10 * digitValue a + digitValue b) = 10 * x + y"
      by (simp add: xa yb nat_add_distrib nat_mult_distrib)
    have "(10 * x + y) div 10 = x" and "(10 * x + y) mod 10 = y"
      using y by simp_all
    then show ?thesis
      using dc [OF that(1)] dc [OF that(2)] by (simp add: twoDigits_def n x_def y_def)
  qed
  from assms show ?thesis
  proof (cases s rule: wellFormedTime.cases)
    case (1 h c m1 m2)
    with assms have d: "isDigit h" "isDigit m1" "isDigit m2" and c: "c = CHR '':''"
      and r: "10 * digitValue m1 + digitValue m2 \<le> 59" by simp_all
    let ?h = "nat (digitValue h)" and ?m = "nat (10 * digitValue m1 + digitValue m2)"
    have "?h \<le> 9" using digitValue_range [OF d(1)] by auto
    moreover have "?m \<le> 59" using r by simp
    moreover have "s = renderHMM ?h ?m"
      using 1 c by (simp add: renderHMM_def dc [OF d(1)] two [OF d(2) d(3)])
    ultimately show ?thesis by (intro exI [of _ ?h] exI [of _ ?m]) simp
  next
    case (2 h1 h2 c m1 m2)
    with assms have d: "isDigit h1" "isDigit h2" "isDigit m1" "isDigit m2"
      and c: "c = CHR '':''"
      and rh: "10 * digitValue h1 + digitValue h2 \<le> 23"
      and r: "10 * digitValue m1 + digitValue m2 \<le> 59" by simp_all
    let ?h = "nat (10 * digitValue h1 + digitValue h2)"
    let ?m = "nat (10 * digitValue m1 + digitValue m2)"
    have "?h \<le> 23" using rh by simp
    moreover have "?m \<le> 59" using r by simp
    moreover have "s = renderHHMM ?h ?m"
      using 2 c by (simp add: renderHHMM_def two [OF d(1) d(2)] two [OF d(3) d(4)])
    ultimately show ?thesis by (intro exI [of _ ?h] exI [of _ ?m]) simp
  qed (use assms in simp_all)
qed

lemma parseTimeToMinutes_ill_formed:
  "\<not> wellFormedTime s \<Longrightarrow> parseTimeToMinutes s = 0"
proof (cases s rule: wellFormedTime.cases)
  case (1 h c m1 m2)
  assume "\<not> wellFormedTime s"
  with 1 show ?thesis
    using digitValue_range [of h]
    by (auto simp: parseTimeToMinutes_def parseInt_one parseInt_two Let_def)
next
  case (2 h1 h2 c m1 m2)
  assume "\<not> wellFormedTime s"
  with 2 show ?thesis
    by (auto simp: parseTimeToMinutes_def parseInt_two Let_def)
qed (simp_all add: parseTimeToMinutes_def)

lemma parseTimeToMinutes_range:
  "0 \<le> parseTimeToMinutes s \<and> parseTimeToMinutes s \<le> 1439"
  by (auto simp: parseTimeToMinutes_def Let_def split: option.splits)

text \<open>
  Claim C5. For every hour \<open>h\<close> from 0 to 23 and minute \<open>m\<close> from 0 to 59, the text
  \<open>HH:MM\<close> (and, for \<open>h\<close> below ten, the text \<open>H:MM\<close>) parses to \<open>(h + 12) * 60 + m\<close>
  when \<open>h\<close> is between 1 and 7 and to \<open>h * 60 + m\<close> otherwise; "3:15" gives 915,
  "9:00" gives 540 and "0:30" gives 30. By \<open>wellFormedTime_rendered\<close> these renderings
  are all the valid time texts, and by \<open>parseTimeToMinutesCached_agrees\<close> the memoising
  revision returns the same numbers.
\<close>

theorem parseTimeToMinutes_school_day:
  "(h \<le> 23 \<and> m \<le> 59 \<longrightarrow>
      parseTimeToMinutes (renderHHMM h m) =
        (if 1 \<le> h \<and> h \<le> 7 then (int h + 12) * 60 + int m else int h * 60 + int m))
   \<and> (h \<le> 9 \<and> m \<le> 59 \<longrightarrow>
      parseTimeToMinutes (renderHMM h m) =
        (if 1 \<le> h \<and> h \<le> 7 then (int h + 12) * 60 + int m else int h * 60 + int m))
   \<and> parseTimeToMinutes ''3:15'' = 915
   \<and> parseTimeToMinutes ''9:00'' = 540
   \<and> parseTimeToMinutes ''0:30'' = 30"
proof (intro conjI impI)
  show "parseTimeToMinutes ''3:15'' = 915"
    by (simp add: parseTimeToMinutes_def isDigit_def parseInt_def digitValue_def)
  show "parseTimeToMinutes ''9:00'' = 540"
    by (simp add: parseTimeToMinutes_def isDigit_def parseInt_def digitValue_def)
  show "parseTimeToMinutes ''0:30'' = 30"
    by (simp add: parseTimeToMinutes_def isDigit_def parseInt_def digitValue_def)
qed (simp_all add: parseTimeToMinutes_renderHHMM parseTimeToMinutes_renderHMM)

theorem parseTimeToMinutes_school_day_witness:
  "renderHHMM 7 5 = ''07:05'' \<and> parseTimeToMinutes ''07:05'' = 1145
   \<and> renderHMM 8 30 = ''8:30'' \<and> parseTimeToMinutes ''8:30'' = 510
   \<and> renderHHMM 23 59 = ''23:59'' \<and> parseTimeToMinutes ''23:59'' = 1439"
proof -
  have a: "renderHHMM 7 5 = ''07:05''" and b: "renderHMM 8 30 = ''8:30''"
    and c: "renderHHMM 23 59 = ''23:59''"
    by code_simp+
  show ?thesis
    using parseTimeToMinutes_school_day [of 7 5] parseTimeToMinutes_school_day [of 8 30]
      parseTimeToMinutes_school_day [of 23 59]
    by (simp add: a b c)
qed

text \<open>
  Claim C10. On every input text the function returns a number between 0 and 1439;
  it has no failing path (both error branches return). Every text that is not a
  well-formed time (wrong shape, hour above 23 or minute above 59) gives exactly 0.
\<close>

theorem parseTimeToMinutes_total_sentinel:
  "0 \<le> parseTimeToMinutes s \<and> parseTimeToMinutes s \<le> 1439
   \<and> (\<not> wellFormedTime s \<longrightarrow> parseTimeToMinutes s = 0)"
  by (simp add: parseTimeToMinutes_range parseTimeToMinutes_ill_formed)

theorem parseTimeToMinutes_total_sentinel_witness:
  "\<not> wellFormedTime ''25:00'' \<and> parseTimeToMinutes ''25:00'' = 0
   \<and> \<not> wellFormedTime ''TBD'' \<and> parseTimeToMinutes ''TBD'' = 0
   \<and> \<not> wellFormedTime ''9:75'' \<and> parseTimeToMinutes ''9:75'' = 0"
proof -
  have "\<not> wellFormedTime ''25:00''" "\<not> wellFormedTime ''TBD''" "\<not> wellFormedTime ''9:75''"
    by (simp_all add: isDigit_def digitValue_def)
  then show ?thesis
    using parseTimeToMinutes_total_sentinel [of "''25:00''"]
      parseTimeToMinutes_total_sentinel [of "''TBD''"]
      parseTimeToMinutes_total_sentinel [of "''9:75''"]
    by simp
qed

section \<open>Properties of the calendar index\<close>

text \<open>
  Claim C7. A date in the early-dismissal list classifies as early dismissal; otherwise
  a date in the testing-day list classifies as testing day; otherwise the date is
  regular. A date in both lists is early dismissal, wherever it stands in either list.
  Both classifiers of the source (the service's and the merge helper's) behave so.
\<close>

theorem getScheduleType_precedence:
  "(date \<in> set (early_dismissal s) \<longrightarrow>
      getScheduleType s date = EarlyDismissal \<and> getScheduleTypeForDate date s = EarlyDismissal)
   \<and> (date \<notin> set (early_dismissal s) \<and> date \<in> set (testing_day s) \<longrightarrow>
      getScheduleType s date = TestingDay \<and> getScheduleTypeForDate date s = TestingDay)
   \<and> (date \<notin> set (early_dismissal s) \<and> date \<notin> set (testing_day s) \<longrightarrow>
      getScheduleType s date = Regular \<and> getScheduleTypeForDate date s = Regular)"
  by (simp add: getScheduleType_def getScheduleTypeForDate_def)

theorem getScheduleType_precedence_witness:
  "getScheduleType
     \<lparr>early_dismissal = [''2025-03-14'', ''2025-05-23''],
      testing_day = [''2025-05-23'', ''2025-04-08'']\<rparr> ''2025-05-23'' = EarlyDismissal
   \<and> getScheduleTypeForDate ''2025-04-08''
     \<lparr>early_dismissal = [''2025-03-14'', ''2025-05-23''],
      testing_day = [''2025-05-23'', ''2025-04-08'']\<rparr> = TestingDay
   \<and> getScheduleType
     \<lparr>early_dismissal = [''2025-03-14'', ''2025-05-23''],
      testing_day = [''2025-05-23'', ''2025-04-08'']\<rparr> ''2025-04-09'' = Regular"
  using getScheduleType_precedence
    [of "''2025-05-23''" "\<lparr>early_dismissal = [''2025-03-14'', ''2025-05-23''],
      testing_day = [''2025-05-23'', ''2025-04-08'']\<rparr>"]
    getScheduleType_precedence
    [of "''2025-04-08''" "\<lparr>early_dismissal = [''2025-03-14'', ''2025-05-23''],
      testing_day = [''2025-05-23'', ''2025-04-08'']\<rparr>"]
    getScheduleType_precedence
    [of "''2025-04-09''" "\<lparr>early_dismissal = [''2025-03-14'', ''2025-05-23''],
      testing_day = [''2025-05-23'', ''2025-04-08'']\<rparr>"]
  by simp

section \<open>Properties of the recurrence dates\<close>

lemma candidates_step: "candidates cur = insert cur (candidates (cur + 7))"
proof (rule set_eqI, rule iffI)
  fix c assume "c \<in> candidates cur"
  then obtain k :: nat where k: "c = cur + 7 * int k" by (auto simp: candidates_def)
  show "c \<in> insert cur (candidates (cur + 7))"
  proof (cases k)
    case 0 then show ?thesis using k by simp
  next
    case (Suc j)
    then have "c = cur + 7 + 7 * int j" using k by simp
    then show ?thesis by (auto simp: candidates_def)
  qed
next
  fix c assume "c \<in> insert cur (candidates (cur + 7))"
  then consider "c = cur" | k :: nat where "c = cur + 7 + 7 * int k"
    by (auto simp: candidates_def)
  then show "c \<in> candidates cur"
  proof cases
    case 1 then have "c = cur + 7 * int 0" by simp
    then show ?thesis unfolding candidates_def by blast
  next
    case 2 then have "c = cur + 7 * int (Suc k)" by simp
    then show ?thesis unfolding candidates_def by blast
  qed
qed

lemma candidates_ge: "c \<in> candidates cur \<Longrightarrow> cur \<le> c"
  by (auto simp: candidates_def)

lemma toISODate_not_ahead:
  assumes "- 720 \<le> off d" and "off d \<le> 0"
  shows "toISODate off d = d"
proof -
  have "d * 1440 - off d = 1440 * d + (- off d)" by simp
  moreover have "0 \<le> - off d" "- off d < 1440" using assms by simp_all
  ultimately have "(d * 1440 - off d) div 1440 = d" by (rule int_div_pos_eq)
  then show ?thesis using assms by (simp add: toISODate_def utcMinutes_def)
qed

lemma timeClip_not_ahead:
  assumes "- 720 \<le> off d" and "off d \<le> 0" and "- 100000000 \<le> d" and "d < 100000000"
  shows "timeClip off d = Some d"
  using assms by (simp add: timeClip_def utcMinutes_def)

lemma generateDates_done:
  "\<not> length dates < n \<Longrightarrow> generateDates off hs n cd dates = Inr dates"
  by (subst generateDates.simps) simp

lemma holidays_ahead:
  "length (filter (\<lambda>h. cur + 7 \<le> h) hs) \<le> length (filter (\<lambda>h. cur \<le> h) hs)"
  "cur \<in> set hs \<Longrightarrow>
     length (filter (\<lambda>h. cur + 7 \<le> h) hs) < length (filter (\<lambda>h. (cur::int) \<le> h) hs)"
proof -
  have e: "filter (\<lambda>h. cur + 7 \<le> h) hs
           = filter (\<lambda>h. cur + 7 \<le> h) (filter (\<lambda>h. cur \<le> h) hs)"
    by (simp add: conj_commute cong: conj_cong) (rule filter_cong, auto)
  show "length (filter (\<lambda>h. cur + 7 \<le> h) hs) \<le> length (filter (\<lambda>h. cur \<le> h) hs)"
    by (subst e) (rule length_filter_le)
  assume "cur \<in> set hs"
  then have "cur \<in> set (filter (\<lambda>h. cur \<le> h) hs)" by simp
  then have "length (filter (\<lambda>h. cur + 7 \<le> h) (filter (\<lambda>h. cur \<le> h) hs))
             < length (filter (\<lambda>h. cur \<le> h) hs)"
    by (rule length_filter_less) simp
  then show "length (filter (\<lambda>h. cur + 7 \<le> h) hs) < length (filter (\<lambda>h. cur \<le> h) hs)"
    by (subst e)
qed

text \<open>
  The loop on a host whose local time is not ahead of UTC, started at a valid date and
  far enough from the end of the range of dates: it returns, the dates it adds are the
  first candidates that are no holidays, in order, as many as are missing.
\<close>

lemma generateDates_spec:
  assumes off: "\<forall>d. - 720 \<le> off d \<and> off d \<le> 0"
  shows "length dates \<le> n \<Longrightarrow> - 100000000 \<le> cur \<Longrightarrow>
     cur + 7 * (int (n - length dates) + int (length (filter (\<lambda>h. cur \<le> h) hs)))
       \<le> 100000006 \<Longrightarrow>
     \<exists>new. generateDates off hs n (timeClip off cur) dates = Inr (dates @ new)
           \<and> length (dates @ new) = n
           \<and> sorted_wrt (<) new
           \<and> set new = {c \<in> candidates cur. c \<notin> set hs \<and> (\<exists>l \<in> set new. c \<le> l)}"
proof (induction m \<equiv> "(n - length dates) + length (filter (\<lambda>h. cur \<le> h) hs)"
    arbitrary: cur dates rule: less_induct)
  case less
  note len = less.prems(1) and low = less.prems(2) and up = less.prems(3)
  show ?case
  proof (cases "length dates < n")
    case False
    with len have "generateDates off hs n (timeClip off cur) dates = Inr dates" "length dates = n"
      by (simp_all add: generateDates_done)
    then show ?thesis by (intro exI [of _ "[]"]) simp
  next
    case True
    then have k1: "1 \<le> int (n - length dates)" by simp
    have f0: "0 \<le> int (length (filter (\<lambda>h. cur \<le> h) hs))" by simp
    have "1 \<le> a \<Longrightarrow> 0 \<le> b \<Longrightarrow> cur + 7 * (a + b) \<le> 100000006 \<Longrightarrow> cur + 7 \<le> 100000006"
      for a b :: int by (simp add: algebra_simps)
    from this [OF k1 f0 up] have "cur + 7 \<le> 100000006" .
    then have hi: "cur < 100000000" by simp
    have tc: "timeClip off cur = Some cur"
      using off low hi by (intro timeClip_not_ahead) simp_all
    have iso: "toISODate off cur = cur"
      using off by (intro toISODate_not_ahead) simp_all
    have step: "generateDates off hs n (timeClip off cur) dates
                = generateDates off hs n (timeClip off (cur + 7))
                    (if cur \<notin> set hs then dates @ [cur] else dates)"
      unfolding tc by (subst generateDates.simps) (simp add: True iso Let_def)
    have low': "- 100000000 \<le> cur + 7" using low by simp
    show ?thesis
    proof (cases "cur \<in> set hs")
      case inh: True
      have m: "(n - length dates) + length (filter (\<lambda>h. cur + 7 \<le> h) hs)
               < (n - length dates) + length (filter (\<lambda>h. cur \<le> h) hs)"
        using holidays_ahead(2) [OF inh] by simp
      have "int (length (filter (\<lambda>h. cur + 7 \<le> h) hs)) + 1
              \<le> int (length (filter (\<lambda>h. cur \<le> h) hs))"
        using holidays_ahead(2) [OF inh] by simp
      moreover have "b' + 1 \<le> b \<Longrightarrow> cur + 7 * (a + b) \<le> 100000006
          \<Longrightarrow> cur + 7 + 7 * (a + b') \<le> 100000006" for a b b' :: int
        by (simp add: algebra_simps)
      ultimately have up': "cur + 7 + 7 * (int (n - length dates)
                   + int (length (filter (\<lambda>h. cur + 7 \<le> h) hs))) \<le> 100000006"
        using up by blast
      from less.hyps [OF m len low' up']
      obtain new where new: "generateDates off hs n (timeClip off (cur + 7)) dates = Inr (dates @ new)"
        "length (dates @ new) = n" "sorted_wrt (<) new"
        "set new = {c \<in> candidates (cur + 7). c \<notin> set hs \<and> (\<exists>l \<in> set new. c \<le> l)}"
        by blast
      have g: "generateDates off hs n (timeClip off cur) dates = Inr (dates @ new)"
        unfolding step using inh new(1) by simp
      have "set new = {c \<in> candidates cur. c \<notin> set hs \<and> (\<exists>l \<in> set new. c \<le> l)}"
        using new(4) inh by (subst candidates_step) auto
      with g new show ?thesis by blast
    next
      case ninh: False
      have len': "length (dates @ [cur]) \<le> n" using True by simp
      have m: "(n - length (dates @ [cur])) + length (filter (\<lambda>h. cur + 7 \<le> h) hs)
               < (n - length dates) + length (filter (\<lambda>h. cur \<le> h) hs)"
        using holidays_ahead(1) [of cur hs] True by simp
      have "int (n - length (dates @ [cur])) = int (n - length dates) - 1" using True by simp
      moreover have "int (length (filter (\<lambda>h. cur + 7 \<le> h) hs))
              \<le> int (length (filter (\<lambda>h. cur \<le> h) hs))"
        using holidays_ahead(1) [of cur hs] by simp
      moreover have "a' = a - 1 \<Longrightarrow> b' \<le> b \<Longrightarrow> cur + 7 * (a + b) \<le> 100000006
          \<Longrightarrow> cur + 7 + 7 * (a' + b') \<le> 100000006" for a a' b b' :: int
        by (simp add: algebra_simps)
      ultimately have up': "cur + 7 + 7 * (int (n - length (dates @ [cur]))
                   + int (length (filter (\<lambda>h. cur + 7 \<le> h) hs))) \<le> 100000006"
        using up by blast
      from less.hyps [OF m len' low' up']
      obtain new where new:
        "generateDates off hs n (timeClip off (cur + 7)) (dates @ [cur]) = Inr ((dates @ [cur]) @ new)"
        "length ((dates @ [cur]) @ new) = n" "sorted_wrt (<) new"
        "set new = {c \<in> candidates (cur + 7). c \<notin> set hs \<and> (\<exists>l \<in> set new. c \<le> l)}"
        by blast
      have g: "generateDates off hs n (timeClip off cur) dates = Inr (dates @ (cur # new))"
        unfolding step using ninh new(1) by simp
      have ge: "\<forall>c \<in> set new. cur < c"
        using new(4) candidates_ge [of _ "cur + 7"] by fastforce
      have s: "sorted_wrt (<) (cur # new)" using new(3) ge by simp
      have len: "length (dates @ cur # new) = n" using new(2) by simp
      have "set (cur # new)
            = {c \<in> candidates cur. c \<notin> set hs \<and> (\<exists>l \<in> set (cur # new). c \<le> l)}"
      proof (rule set_eqI, rule iffI)
        fix c assume "c \<in> set (cur # new)"
        then consider "c = cur" | "c \<in> set new" by auto
        then show "c \<in> {c \<in> candidates cur. c \<notin> set hs \<and> (\<exists>l \<in> set (cur # new). c \<le> l)}"
        proof cases
          case 1
          then show ?thesis using ninh by (subst candidates_step) auto
        next
          case 2
          then have "c \<in> candidates (cur + 7)" "c \<notin> set hs" using new(4) by auto
          then show ?thesis using 2 by (subst candidates_step) auto
        qed
      next
        fix c assume c: "c \<in> {c \<in> candidates cur. c \<notin> set hs \<and> (\<exists>l \<in> set (cur # new). c \<le> l)}"
        then have cc: "c = cur \<or> c \<in> candidates (cur + 7)" and nh: "c \<notin> set hs"
          and l: "\<exists>l \<in> set (cur # new). c \<le> l"
          using candidates_step [of cur] by auto
        show "c \<in> set (cur # new)"
        proof (cases "c = cur")
          case True then show ?thesis by simp
        next
          case False
          with cc have c7: "c \<in> candidates (cur + 7)" by simp
          then have "cur < c" using candidates_ge [of c "cur + 7"] by simp
          with l have "\<exists>l \<in> set new. c \<le> l" by auto
          with c7 nh have "c \<in> set new" using new(4) by blast
          then show ?thesis by simp
        qed
      qed
      with g len s show ?thesis by (intro exI [of _ "cur # new"] conjI)
    qed
  qed
qed

lemma daysToAdd_cases:
  fixes t a :: int
  assumes "0 \<le> t" "t < 7" "0 \<le> a" "a < 7"
  shows "(t - a + 7) mod 7 = (if a \<le> t then t - a else t - a + 7)"
proof (cases "a \<le> t")
  case True
  then have "0 \<le> t - a" "t - a < 7" using assms by simp_all
  then have "(t - a) mod 7 = t - a" by simp
  then show ?thesis using True by simp
next
  case False
  then have "0 \<le> t - a + 7" "t - a + 7 < 7" using assms by simp_all
  then have "(t - a + 7) mod 7 = t - a + 7" by (rule mod_pos_pos_trivial)
  then show ?thesis using False by simp
qed

lemma weekday_decomp:
  "\<exists>q a. d + 4 = 7 * q + a \<and> 0 \<le> a \<and> a < 7 \<and> getDay d = a"
proof -
  have "d + 4 = 7 * ((d + 4) div 7) + (d + 4) mod 7" by simp
  moreover have "0 \<le> (d + 4) mod 7" "(d + 4) mod 7 < 7" by simp_all
  ultimately show ?thesis unfolding getDay_def by blast
qed

lemma getDay_of_decomp:
  assumes "d + 4 = 7 * q + a" "0 \<le> a" "a < 7"
  shows "getDay d = a"
proof -
  have "(7 * q + a) mod 7 = a mod 7" by simp
  also have "\<dots> = a" using assms by simp
  finally show ?thesis using assms(1) by (simp add: getDay_def)
qed

lemma candidates_weekday:
  assumes t: "0 \<le> t" "t < 7"
  shows "candidates (start + (t - getDay start + 7) mod 7) = {c. start \<le> c \<and> getDay c = t}"
proof -
  obtain q a where s: "start + 4 = 7 * q + a" and a: "0 \<le> a" "a < 7" "getDay start = a"
    using weekday_decomp [of start] by blast
  define f where "f = start + (t - getDay start + 7) mod 7"
  have f: "f = (if a \<le> t then start + (t - a) else start + (t - a + 7))"
    using daysToAdd_cases [OF t a(1,2)] by (simp add: f_def a(3))
  obtain q' where f4: "f + 4 = 7 * q' + t" and fs: "start \<le> f" "f < start + 7"
  proof (cases "a \<le> t")
    case True
    with f s have "f + 4 = 7 * q + t" "start \<le> f" "f < start + 7" using a t by simp_all
    then show ?thesis using that by blast
  next
    case False
    with f s have "f + 4 = 7 * (q + 1) + t" "start \<le> f" "f < start + 7" using a t by simp_all
    then show ?thesis using that by blast
  qed
  show ?thesis
  proof (rule set_eqI, rule iffI)
    fix c assume "c \<in> candidates (start + (t - getDay start + 7) mod 7)"
    then obtain k :: nat where k: "c = f + 7 * int k" by (auto simp: candidates_def f_def)
    then have "c + 4 = 7 * (q' + int k) + t" using f4 by simp
    then have "getDay c = t" using t by (rule getDay_of_decomp)
    moreover have "start \<le> c" using k fs by simp
    ultimately show "c \<in> {c. start \<le> c \<and> getDay c = t}" by simp
  next
    fix c assume "c \<in> {c. start \<le> c \<and> getDay c = t}"
    then have c: "start \<le> c" "getDay c = t" by auto
    obtain p b where p: "c + 4 = 7 * p + b" "0 \<le> b" "b < 7" "getDay c = b"
      using weekday_decomp [of c] by blast
    with c have p4: "c + 4 = 7 * p + t" by simp
    have "7 * q' < 7 * p + 7" using p4 f4 fs c(1) by linarith
    then have "q' \<le> p" by linarith
    moreover have "c = f + 7 * (p - q')" using p4 f4 by simp
    ultimately have "c = f + 7 * int (nat (p - q'))" by simp
    then show "c \<in> candidates (start + (t - getDay start + 7) mod 7)"
      unfolding candidates_def f_def by blast
  qed
qed

lemma dayMap_range: "dayMap dayName = Some t \<Longrightarrow> 0 \<le> t \<and> t < 7"
  by (auto simp: dayMap_def split: if_splits)

lemma makeDay_civil:
  assumes "1 \<le> month" and "month \<le> 12"
  shows "makeDay year (month - 1) day = daysFromCivil year month day"
proof -
  have "(month - 1) div 12 = 0" "(month - 1) mod 12 = month - 1" using assms by simp_all
  then show ?thesis by (simp add: makeDay_def daysFromCivil_def Let_def)
qed

text \<open>
  Claim C4, as amended. Take a start text whose year is 100 or later and whose month is
  from 1 to 12, a valid weekday name, a duration of at least one and a host whose local
  time is not ahead of UTC, with the dates of the run within the range of valid dates.
  Then \<open>calculateClassDates\<close> returns exactly \<open>duration\<close> dates in strictly increasing
  order; every one of them is on or after the start date, falls on the weekday and is no
  holiday; and every date on or after the start date that falls on the weekday, is no
  holiday and is not later than the last returned date is in the list. So the first
  element is the first such date that is not a holiday (not the first such date whatever
  it is), and consecutive elements are one week apart except across skipped holidays.
  The loop terminates for every finite holiday list (\<open>generateDates\<close> is a total
  function).
\<close>

theorem calculateClassDates_recurrence:
  assumes "\<forall>d. - 720 \<le> utcOffset d \<and> utcOffset d \<le> 0"
    and "dayMap dayName = Some t" and "1 \<le> duration"
    and "100 \<le> year" and "1 \<le> month" and "month \<le> 12"
    and "- 100000000 \<le> daysFromCivil year month day"
    and "daysFromCivil year month day + 7 * (int duration + int (length holidays)) < 100000000"
  shows "\<exists>ds. calculateClassDates utcOffset holidays year month day dayName duration = Inr ds
           \<and> length ds = duration
           \<and> sorted_wrt (<) ds
           \<and> (\<forall>d \<in> set ds. daysFromCivil year month day \<le> d \<and> getDay d = t
                  \<and> d \<notin> set holidays)
           \<and> (\<forall>c. daysFromCivil year month day \<le> c \<and> getDay c = t \<and> c \<notin> set holidays
                  \<and> c \<le> last ds \<longrightarrow> c \<in> set ds)"
proof -
  define start where "start = daysFromCivil year month day"
  have t: "0 \<le> t" "t < 7" using dayMap_range [OF assms(2)] by simp_all
  have low: "- 100000000 \<le> start" using assms(7) by (simp add: start_def)
  have up: "start + 7 * (int duration + int (length holidays)) < 100000000"
    using assms(8) by (simp add: start_def)
  have d1: "1 \<le> int duration" using assms(3) by simp
  have "1 \<le> a \<Longrightarrow> 0 \<le> b \<Longrightarrow> start + 7 * (a + b) < 100000000 \<Longrightarrow> start < 100000000"
    for a b :: int by (simp add: algebra_simps)
  from this [OF d1 _ up] have hi: "start < 100000000" by simp
  have vs: "timeClip utcOffset start = Some start"
    using assms(1) low hi by (intro timeClip_not_ahead) simp_all
  have nd: "newDate utcOffset year (month - 1) day = Some start"
    using assms(4) vs by (simp add: newDate_def makeDay_civil [OF assms(5) assms(6)] start_def)
  define f where "f = start + (t - getDay start + 7) mod 7"
  have f0: "0 \<le> (t - getDay start + 7) mod 7" "(t - getDay start + 7) mod 7 < 7" by simp_all
  have fs: "start \<le> f" "f \<le> start + 6" using f0 by (simp_all add: f_def)
  have f2: "start = f" if "getDay start = t" using that by (simp add: f_def)
  have c: "calculateClassDates utcOffset holidays year month day dayName duration
           = generateDates utcOffset holidays duration (timeClip utcOffset f) []"
  proof (cases "getDay start = t")
    case True
    then show ?thesis
      using f2 [OF True] vs by (simp add: calculateClassDates_def assms(2) nd)
  next
    case False
    then show ?thesis by (simp add: calculateClassDates_def assms(2) nd f_def)
  qed
  have lf: "- 100000000 \<le> f" using low fs by simp
  have fl: "int (length (filter (\<lambda>h. f \<le> h) holidays)) \<le> int (length holidays)" by simp
  have "x \<le> start + 6 \<Longrightarrow> b' \<le> b \<Longrightarrow> start + 7 * (a + b) < 100000000
      \<Longrightarrow> x + 7 * (a + b') \<le> 100000006" for x a b b' :: int
    by (simp add: algebra_simps)
  from this [OF fs(2) fl up]
  have uf: "f + 7 * (int (duration - length ([]::int list))
      + int (length (filter (\<lambda>h. f \<le> h) holidays))) \<le> 100000006"
    by simp
  from generateDates_spec [OF assms(1) _ lf uf]
  obtain ds where "generateDates utcOffset holidays duration (timeClip utcOffset f) [] = Inr ([] @ ds)
      \<and> length ([] @ ds) = duration \<and> sorted_wrt (<) ds
      \<and> set ds = {c \<in> candidates f. c \<notin> set holidays \<and> (\<exists>l \<in> set ds. c \<le> l)}"
    by auto
  then have ds: "generateDates utcOffset holidays duration (timeClip utcOffset f) [] = Inr ds"
    "length ds = duration" "sorted_wrt (<) ds"
    "set ds = {c \<in> candidates f. c \<notin> set holidays \<and> (\<exists>l \<in> set ds. c \<le> l)}"
    by simp_all
  have cw: "candidates f = {c. start \<le> c \<and> getDay c = t}"
    unfolding f_def by (rule candidates_weekday [OF t])
  have ne: "ds \<noteq> []" using ds(2) assms(3) by (cases ds) simp_all
  have a: "\<forall>d \<in> set ds. start \<le> d \<and> getDay d = t \<and> d \<notin> set holidays"
  proof
    fix d assume "d \<in> set ds"
    then have "d \<in> {c \<in> candidates f. c \<notin> set holidays \<and> (\<exists>l \<in> set ds. c \<le> l)}"
      using ds(4) by simp
    then have "d \<in> candidates f" "d \<notin> set holidays" by simp_all
    then show "start \<le> d \<and> getDay d = t \<and> d \<notin> set holidays" unfolding cw by simp
  qed
  have b: "\<forall>c. start \<le> c \<and> getDay c = t \<and> c \<notin> set holidays \<and> c \<le> last ds
             \<longrightarrow> c \<in> set ds"
  proof (intro allI impI)
    fix c assume h: "start \<le> c \<and> getDay c = t \<and> c \<notin> set holidays \<and> c \<le> last ds"
    have l: "last ds \<in> set ds" using ne by simp
    from h have "c \<in> candidates f" unfolding cw by simp
    moreover from h l have "\<exists>l \<in> set ds. c \<le> l" by (intro bexI [of _ "last ds"]) simp_all
    ultimately have "c \<in> {c \<in> candidates f. c \<notin> set holidays \<and> (\<exists>l \<in> set ds. c \<le> l)}"
      using h by simp
    then show "c \<in> set ds" using ds(4) by simp
  qed
  have r: "calculateClassDates utcOffset holidays year month day dayName duration = Inr ds"
    by (simp only: c ds(1))
  show ?thesis
    unfolding start_def [symmetric]
    by (rule exI [of _ ds], intro conjI) (fact r, fact ds(2), fact ds(3), fact a, fact b)
qed

theorem calculateClassDates_recurrence_witness:
  "(\<forall>d. - 720 \<le> behindUTC d \<and> behindUTC d \<le> 0) \<and> dayMap ''Monday'' = Some 1
   \<and> (1::nat) \<le> 2 \<and> (100::int) \<le> 2025 \<and> (1::int) \<le> 1 \<and> (1::int) \<le> 12
   \<and> daysFromCivil 2025 1 5 = 20093
   \<and> calculateClassDates behindUTC [20101] 2025 1 5 ''Monday'' 2 = Inr [20094, 20108]
   \<and> (\<exists>ds. calculateClassDates behindUTC [20101] 2025 1 5 ''Monday'' 2 = Inr ds
           \<and> length ds = 2 \<and> sorted_wrt (<) ds
           \<and> (\<forall>d \<in> set ds. daysFromCivil 2025 1 5 \<le> d \<and> getDay d = 1 \<and> d \<notin> set [20101])
           \<and> (\<forall>c. daysFromCivil 2025 1 5 \<le> c \<and> getDay c = 1 \<and> c \<notin> set [20101]
                  \<and> c \<le> last ds \<longrightarrow> c \<in> set ds))"
proof -
  have h1: "\<forall>d. - 720 \<le> behindUTC d \<and> behindUTC d \<le> 0" by (simp add: behindUTC_def)
  have h2: "dayMap ''Monday'' = Some 1" by (simp add: dayMap_def)
  have h3: "(1::nat) \<le> 2" by simp
  have s: "daysFromCivil 2025 1 5 = 20093" by code_simp
  have h7: "- 100000000 \<le> daysFromCivil 2025 1 5" unfolding s by simp
  have h8: "daysFromCivil 2025 1 5 + 7 * (int 2 + int (length [20101::int])) < 100000000"
    unfolding s by simp
  have e: "calculateClassDates behindUTC [20101] 2025 1 5 ''Monday'' 2 = Inr [20094, 20108]"
    by code_simp
  from calculateClassDates_recurrence [OF h1 h2 h3 _ _ _ h7 h8] h1 h2 s e
  show ?thesis by simp
qed

text \<open>
  The claim as stated fails where the first date on or after the start date that falls
  on the weekday is a holiday: 2025-01-06 (day 20094) is a Monday and a holiday, the
  start date is that day, and the first returned date is the Monday after.
\<close>

theorem calculateClassDates_first_is_holiday_counterexample:
  "calculateClassDates behindUTC [20094] 2025 1 6 ''Monday'' 2 = Inr [20101, 20108]
   \<and> daysFromCivil 2025 1 6 = 20094
   \<and> dayMap ''Monday'' = Some (getDay 20094)
   \<and> isoDateText 20094 = ''2025-01-06''
   \<and> hd [20101, 20108] \<noteq> (20094 :: int)"
  by code_simp

text \<open>
  On a host ahead of UTC the date texts are those of the day before: local midnight is
  still the previous day in UTC, and \<open>toISOString\<close> prints the UTC date. Started on
  Monday 2025-01-06 for Mondays, the function answers 2025-01-05, a Sunday.
\<close>

lemma calculateClassDates_ahead_of_UTC:
  "calculateClassDates centralEurope [] 2025 1 6 ''Monday'' 1 = Inr [20093]
   \<and> daysFromCivil 2025 1 6 = 20094
   \<and> isoDateText 20094 = ''2025-01-06'' \<and> getDay 20094 = 1
   \<and> isoDateText 20093 = ''2025-01-05'' \<and> getDay 20093 = 0"
  by code_simp

text \<open>
  A start text with a year below 100 is read in the twentieth century: the start text
  0050-01-03 (a Monday of the year 50) gives the Monday after 1950-01-03.
\<close>

lemma calculateClassDates_two_digit_year:
  "calculateClassDates behindUTC [] 50 1 3 ''Monday'' 1 = Inr [daysFromCivil 1950 1 9]
   \<and> getDay (daysFromCivil 50 1 3) = 1
   \<and> isoDateText (daysFromCivil 1950 1 9) = ''1950-01-09''"
  by code_simp

text \<open>
  A weekday name that \<open>Object.prototype\<close> defines is not refused: the date becomes
  invalid and \<open>toISOString\<close> throws. The last valid date is 275760-09-13, at midnight UTC.
\<close>

lemma calculateClassDates_invalid_date:
  "calculateClassDates behindUTC [] 2025 1 6 ''constructor'' 1 = Inl InvalidTimeValue
   \<and> calculateClassDates behindUTC [] 2025 1 6 ''Montag'' 1 = Inl (InvalidDayOfWeek ''Montag'')
   \<and> daysFromCivil 275760 9 13 = 100000000
   \<and> calculateClassDates (\<lambda>d. 0) [] 275760 9 13 ''Saturday'' 1 = Inr [100000000]
   \<and> calculateClassDates behindUTC [] 275760 9 13 ''Saturday'' 1 = Inl InvalidTimeValue"
  by code_simp

section \<open>Properties of lines and of the entry text\<close>

lemma splitLines_nonempty: "splitLines s \<noteq> []"
  by (induction s) auto

lemma splitLines_no_nl: "l \<in> set (splitLines s) \<Longrightarrow> nl \<notin> set l"
proof (induction s arbitrary: l)
  case Nil
  then show ?case by simp
next
  case (Cons c cs)
  show ?case
  proof (cases "c = nl")
    case True
    with Cons show ?thesis by auto
  next
    case False
    obtain h t where ht: "splitLines cs = h # t"
      using splitLines_nonempty [of cs] by (cases "splitLines cs") auto
    with Cons False show ?thesis by auto
  qed
qed

lemma splitLines_plain: "nl \<notin> set s \<Longrightarrow> splitLines s = [s]"
  by (induction s) auto

lemma splitLines_line_nl: "nl \<notin> set l \<Longrightarrow> splitLines (l @ nl # b) = l # splitLines b"
  by (induction l) auto

lemma splitLines_append: "splitLines (a @ nl # b) = splitLines a @ splitLines b"
proof (induction a)
  case Nil
  show ?case by simp
next
  case (Cons c cs)
  obtain h t where ht: "splitLines cs = h # t"
    using splitLines_nonempty [of cs] by (cases "splitLines cs") auto
  with Cons show ?case by auto
qed

lemma splitLines_joinLines:
  "ls \<noteq> [] \<Longrightarrow> \<forall>l \<in> set ls. nl \<notin> set l \<Longrightarrow> splitLines (joinLines ls) = ls"
proof (induction ls rule: joinLines.induct)
  case 1
  then show ?case by simp
next
  case (2 l)
  then show ?case by (simp add: splitLines_plain)
next
  case (3 l v va)
  then show ?case by (simp add: splitLines_line_nl)
qed

lemma joinLines_splitLines: "joinLines (splitLines s) = s"
proof (induction s)
  case Nil
  show ?case by simp
next
  case (Cons c cs)
  obtain h t where ht: "splitLines cs = h # t"
    using splitLines_nonempty [of cs] by (cases "splitLines cs") auto
  show ?case
  proof (cases "c = nl")
    case True
    with Cons ht show ?thesis by simp
  next
    case False
    with Cons ht show ?thesis by (cases t) auto
  qed
qed

lemma joinLines_snoc: "ls \<noteq> [] \<Longrightarrow> joinLines (ls @ [l]) = joinLines ls @ nl # l"
  by (induction ls rule: joinLines.induct) auto

lemma joinLines_Cons: "ls \<noteq> [] \<Longrightarrow> joinLines (l # ls) = l @ nl # joinLines ls"
  by (cases ls) auto

lemma terminator_split:
  assumes "t \<in> set lineTerminators" and "t = p @ q" and "p \<noteq> []" and "q \<noteq> []"
  shows "(last p = CHR 0xE2 \<or> last p = CHR 0x80)
         \<and> (hd q = CHR 0x80 \<or> hd q = CHR 0xA8 \<or> hd q = CHR 0xA9)"
  using assms
  by (auto simp: lineTerminators_def lineSeparator_def paragraphSeparator_def
      append_eq_Cons_conv Cons_eq_append_conv)

lemma noBreaks_nl: "noBreaks s \<Longrightarrow> nl \<notin> set s"
proof
  assume n: "noBreaks s" and "nl \<in> set s"
  then obtain ys zs where "s = ys @ [nl] @ zs" by (auto dest: split_list)
  then have "sublist [nl] s" by (simp only: sublist_appendI)
  with n show False by (simp add: noBreaks_def lineTerminators_def)
qed

lemma noBreaks_bytes:
  "nl \<notin> set s \<Longrightarrow> cr \<notin> set s \<Longrightarrow> CHR 0xE2 \<notin> set s \<Longrightarrow> noBreaks s"
  unfolding noBreaks_def lineTerminators_def lineSeparator_def paragraphSeparator_def
  by (auto dest!: set_mono_sublist)

lemma noBreaks_Nil [simp]: "noBreaks []"
  by (simp add: noBreaks_bytes)

lemma noBreaks_prefix: "noBreaks (a @ b) \<Longrightarrow> noBreaks a"
  by (auto simp: noBreaks_def sublist_append)

lemma noBreaks_suffix: "noBreaks (a @ b) \<Longrightarrow> noBreaks b"
  by (auto simp: noBreaks_def sublist_append)

lemma noBreaks_append:
  assumes "noBreaks a" and "noBreaks b"
    and "a = [] \<or> (last a \<noteq> CHR 0xE2 \<and> last a \<noteq> CHR 0x80)
         \<or> b = [] \<or> (hd b \<noteq> CHR 0x80 \<and> hd b \<noteq> CHR 0xA8 \<and> hd b \<noteq> CHR 0xA9)"
  shows "noBreaks (a @ b)"
  unfolding noBreaks_def
proof (intro ballI notI)
  fix t assume t: "t \<in> set lineTerminators" and "sublist t (a @ b)"
  then consider "sublist t a" | "sublist t b"
    | p q where "t = p @ q" "suffix p a" "prefix q b"
    by (auto simp: sublist_append)
  then show False
  proof cases
    case 1
    with assms(1) t show False by (simp add: noBreaks_def)
  next
    case 2
    with assms(2) t show False by (simp add: noBreaks_def)
  next
    case 3
    show False
    proof (cases "p = [] \<or> q = []")
      case True
      with 3 have "sublist t a \<or> sublist t b" by auto
      with assms(1,2) t show False by (auto simp: noBreaks_def)
    next
      case False
      then have pq: "p \<noteq> []" "q \<noteq> []" by simp_all
      from terminator_split [OF t 3(1) pq]
      have l: "last p = CHR 0xE2 \<or> last p = CHR 0x80"
        and h: "hd q = CHR 0x80 \<or> hd q = CHR 0xA8 \<or> hd q = CHR 0xA9" by simp_all
      from 3(2) pq(1) have a: "a \<noteq> []" "last a = last p" by (auto simp: suffix_def)
      from 3(3) pq(2) have b: "b \<noteq> []" "hd b = hd q" by (auto simp: prefix_def)
      from assms(3) a b l h show False by auto
    qed
  qed
qed

lemma showNat_digits: "c \<in> set (showNat n) \<Longrightarrow> isDigit c"
proof (induction n arbitrary: c rule: showNat.induct)
  case (1 n)
  show ?case
  proof (cases "n < 10")
    case True
    with "1.prems" show ?thesis
      by (subst (asm) showNat.simps) (simp add: isDigit_digitChar)
  next
    case False
    with "1.prems" have "c \<in> set (showNat (n div 10)) \<or> c = digitChar (n mod 10)"
      by (subst (asm) showNat.simps) auto
    then show ?thesis using "1.IH" [OF False] by (auto simp: isDigit_digitChar)
  qed
qed

lemma noBreaks_showNat: "noBreaks (showNat n)"
proof -
  have "\<not> isDigit nl" "\<not> isDigit cr" "\<not> isDigit (CHR 0xE2)"
    by (simp_all add: isDigit_def nl_def cr_def)
  then show ?thesis using showNat_digits [of _ n] by (intro noBreaks_bytes) auto
qed

lemma endsLine_nl: "endsLine (b @ [nl])"
  by (simp add: endsLine_def lineTerminators_def suffix_def)

text \<open>Inside a line the position is not at a line start.\<close>

lemma endsLine_inside:
  assumes "noBreaks p" and "p \<noteq> []" and "b = [] \<or> last b = nl"
  shows "\<not> endsLine (b @ p)"
proof
  assume "endsLine (b @ p)"
  then obtain t where t: "t \<in> set lineTerminators" and "suffix t (b @ p)"
    by (auto simp: endsLine_def)
  then consider "suffix t p" | t' where "t = t' @ p" "suffix t' b"
    by (auto simp: suffix_append)
  then show False
  proof cases
    case 1
    then have "sublist t p" by simp
    with assms(1) t show False by (simp add: noBreaks_def)
  next
    case 2
    show False
    proof (cases "t' = []")
      case True
      with 2 have "sublist t p" by simp
      with assms(1) t show False by (simp add: noBreaks_def)
    next
      case False
      from terminator_split [OF t 2(1) False assms(2)]
      have l: "last t' = CHR 0xE2 \<or> last t' = CHR 0x80" by simp
      from 2(2) False have "b \<noteq> []" "last b = last t'" by (auto simp: suffix_def)
      with assms(3) l show False by (auto simp: nl_def)
    qed
  qed
qed

subsection \<open>Trimming\<close>

lemma whiteSpace_bytes:
  "spaceBytes =
     {CHR 0x09, CHR 0x0A, CHR 0x0B, CHR 0x0C, CHR 0x0D, CHR 0x20, CHR 0xC2, CHR 0xA0,
      CHR 0xE1, CHR 0x9A, CHR 0x80, CHR 0xE2, CHR 0x81, CHR 0x82, CHR 0x83, CHR 0x84,
      CHR 0x85, CHR 0x86, CHR 0x87, CHR 0x88, CHR 0x89, CHR 0x8A, CHR 0xA8, CHR 0xA9,
      CHR 0xAF, CHR 0x9F, CHR 0xE3, CHR 0xEF, CHR 0xBB, CHR 0xBF}"
  by (auto simp: spaceBytes_def whiteSpaces_def lineSeparator_def paragraphSeparator_def
      nl_def cr_def)

lemma seqRun_Nil [simp]: "seqRun seqs [] = []"
proof -
  have "find (\<lambda>w. w \<noteq> [] \<and> prefix w []) seqs = None" by (simp add: find_None_iff)
  then show ?thesis by (subst seqRun.simps) simp
qed

lemma seqRun_stop: "c \<notin> set (concat seqs) \<Longrightarrow> seqRun seqs (c # s) = []"
proof -
  assume c: "c \<notin> set (concat seqs)"
  have "\<not> (w \<noteq> [] \<and> prefix w (c # s))" if "w \<in> set seqs" for w
  proof
    assume "w \<noteq> [] \<and> prefix w (c # s)"
    then have "c \<in> set w" by (cases w) auto
    with that c show False by auto
  qed
  then have "find (\<lambda>w. w \<noteq> [] \<and> prefix w (c # s)) seqs = None" by (simp add: find_None_iff)
  then show ?thesis by (subst seqRun.simps) simp
qed

lemma seqRun_prefix: "prefix (concat (seqRun seqs s)) s"
proof (induction seqs s rule: seqRun.induct)
  case (1 seqs s)
  show ?case
  proof (cases "find (\<lambda>w. w \<noteq> [] \<and> prefix w s) seqs")
    case None
    then show ?thesis by (subst seqRun.simps) simp
  next
    case (Some w)
    then have "prefix w s" by (auto simp: find_Some_iff)
    then obtain r where s: "s = w @ r" by (auto simp: prefix_def)
    from "1.IH" [OF Some] have "prefix (concat (seqRun seqs r)) r" by (simp add: s)
    then show ?thesis using Some by (subst seqRun.simps) (simp add: s)
  qed
qed

text \<open>A byte that belongs to no code point of the class is never taken, wherever it
  stands.\<close>

lemma seqRun_keeps_last:
  "c \<notin> set (concat seqs) \<Longrightarrow>
     \<exists>ys. drop (length (concat (seqRun seqs (xs @ [c])))) (xs @ [c]) = ys @ [c]"
proof (induction "length xs" arbitrary: xs rule: less_induct)
  case less
  show ?case
  proof (cases "find (\<lambda>w. w \<noteq> [] \<and> prefix w (xs @ [c])) seqs")
    case None
    then have "seqRun seqs (xs @ [c]) = []" by (subst seqRun.simps) simp
    then show ?thesis by simp
  next
    case (Some w)
    then obtain i where "i < length seqs" "w = seqs ! i"
      "seqs ! i \<noteq> [] \<and> prefix (seqs ! i) (xs @ [c])"
      unfolding find_Some_iff by blast
    then have w: "w \<in> set seqs" "w \<noteq> []" "prefix w (xs @ [c])"
      by simp_all
    then have "c \<notin> set w" using less.prems by auto
    with w(3) have "prefix w xs"
      by (metis in_set_conv_decomp prefix_snoc)
    then obtain r where xs: "xs = w @ r" by (auto simp: prefix_def)
    have "length r < length xs" using w(2) by (simp add: xs)
    from less.hyps [OF this less.prems]
    obtain ys where ys: "drop (length (concat (seqRun seqs (r @ [c])))) (r @ [c]) = ys @ [c]" ..
    have "seqRun seqs (xs @ [c]) = w # seqRun seqs (r @ [c])"
      using Some by (subst seqRun.simps) (simp add: xs)
    then show ?thesis using ys by (simp add: xs)
  qed
qed

lemma dropSpaces_stop: "c \<notin> spaceBytes \<Longrightarrow> dropSpaces (c # s) = c # s"
  by (simp add: dropSpaces_def takeSpaces_def spaceRun_def seqRun_stop spaceBytes_def)

lemma trimEnd_stop: "c \<notin> spaceBytes \<Longrightarrow> trimEnd (s @ [c]) = s @ [c]"
proof -
  assume "c \<notin> spaceBytes"
  then have "c \<notin> set (concat (map rev whiteSpaces))" by (simp add: spaceBytes_def)
  then show ?thesis by (simp add: trimEnd_def seqRun_stop)
qed

lemma dropSpaces_nl: "dropSpaces (nl # s) = dropSpaces s"
proof -
  have "find (\<lambda>w. w \<noteq> [] \<and> prefix w (nl # s)) whiteSpaces = Some [nl]"
    by (simp add: whiteSpaces_def nl_def cr_def lineSeparator_def paragraphSeparator_def)
  then have "seqRun whiteSpaces (nl # s) = [nl] # seqRun whiteSpaces s"
    by (subst seqRun.simps) simp
  then show ?thesis by (simp add: dropSpaces_def takeSpaces_def spaceRun_def)
qed

lemma trimEnd_nl: "trimEnd (s @ [nl]) = trimEnd s"
proof -
  have "find (\<lambda>w. w \<noteq> [] \<and> prefix w (nl # rev s)) (map rev whiteSpaces) = Some [nl]"
    by (simp add: whiteSpaces_def nl_def cr_def lineSeparator_def paragraphSeparator_def)
  then have "seqRun (map rev whiteSpaces) (nl # rev s) = [nl] # seqRun (map rev whiteSpaces) (rev s)"
    by (subst seqRun.simps) simp
  then show ?thesis by (simp add: trimEnd_def)
qed

lemma trim_Nil [simp]: "trim [] = []"
  by (simp add: trim_def trimEnd_def dropSpaces_def)

lemma trim_plain:
  assumes "x \<noteq> []" and "hd x \<notin> spaceBytes"
    and "last x \<notin> spaceBytes"
  shows "trim x = x"
proof -
  from assms(1) obtain c s where x: "x = c # s" by (cases x) auto
  from assms(1) obtain s' c' where x': "x = s' @ [c']" by (cases x rule: rev_cases) auto
  have "dropSpaces x = x" using assms(2) unfolding x by (simp add: dropSpaces_stop)
  moreover have "trimEnd x = x" using assms(3) unfolding x' by (simp add: trimEnd_stop)
  ultimately show ?thesis by (simp add: trim_def)
qed

lemma trim_core:
  assumes "x \<noteq> []" and "hd x \<notin> spaceBytes"
    and "last x \<notin> spaceBytes"
  shows "trim ([nl, nl] @ x @ [nl, nl]) = x"
proof -
  from assms(1) obtain c s where x: "x = c # s" by (cases x) auto
  from assms(1) obtain s' c' where x': "x = s' @ [c']" by (cases x rule: rev_cases) auto
  have c: "c \<notin> spaceBytes" using assms(2) by (simp add: x)
  have c': "c' \<notin> spaceBytes" using assms(3) by (simp add: x')
  have "dropSpaces ([nl, nl] @ x @ [nl, nl]) = dropSpaces (x @ [nl, nl])"
    by (simp add: dropSpaces_nl)
  also have "\<dots> = x @ [nl, nl]" using c unfolding x by (simp add: dropSpaces_stop)
  finally have 1: "dropSpaces ([nl, nl] @ x @ [nl, nl]) = x @ [nl, nl]" .
  have "trimEnd (x @ [nl, nl]) = trimEnd ((x @ [nl]) @ [nl])" by simp
  also have "\<dots> = trimEnd (x @ [nl])" by (rule trimEnd_nl)
  also have "\<dots> = trimEnd x" by (rule trimEnd_nl)
  also have "\<dots> = x" using c' unfolding x' by (simp add: trimEnd_stop)
  finally have 2: "trimEnd (x @ [nl, nl]) = x" .
  show ?thesis unfolding trim_def 1 2 ..
qed

lemma trim_keeps_head:
  assumes "c \<notin> spaceBytes"
  shows "\<exists>t. trim (c # s) = c # t"
proof -
  have 1: "dropSpaces (c # s) = c # s" using assms by (rule dropSpaces_stop)
  have "c \<notin> set (concat (map rev whiteSpaces))" using assms by (simp add: spaceBytes_def)
  from seqRun_keeps_last [OF this, of "rev s"]
  obtain ys where "drop (length (concat (seqRun (map rev whiteSpaces) (rev s @ [c])))) (rev s @ [c])
      = ys @ [c]" ..
  then have "trimEnd (c # s) = c # rev ys" by (simp add: trimEnd_def)
  then show ?thesis by (simp add: trim_def 1)
qed

lemma not_divider_line:
  "c \<notin> spaceBytes \<Longrightarrow> c \<noteq> CHR ''-'' \<Longrightarrow>
     \<not> isDivider (c # s) \<and> \<not> isBlank (c # s)"
  using trim_keeps_head [of c s] by (auto simp: isDivider_def isBlank_def)

lemma isBlank_Nil [simp]: "isBlank []"
  by (simp add: isBlank_def)

lemma isDivider_dashes [simp]: "isDivider ''---''"
  by (simp add: isDivider_def trim_plain whiteSpace_bytes)

lemma isDivider_Nil [simp]: "\<not> isDivider []"
  by (simp add: isDivider_def)

lemma isEntryHeader_Nil [simp]: "\<not> isEntryHeader []"
  by (simp add: isEntryHeader_def)

lemma isEntryHeader_dashes [simp]: "\<not> isEntryHeader ''---''"
  by (simp add: isEntryHeader_def)

lemma header_not_divider: "isEntryHeader l \<Longrightarrow> \<not> isDivider l \<and> \<not> isBlank l"
proof -
  assume "isEntryHeader l"
  then obtain r where l: "l = CHR ''#'' # r"
    by (cases l) (auto simp: isEntryHeader_def)
  have "CHR ''#'' \<notin> spaceBytes" by (simp add: whiteSpace_bytes)
  then show ?thesis unfolding l by (intro not_divider_line) simp_all
qed

lemma matchClassHeader_isEntryHeader: "matchClassHeader l = Some t \<Longrightarrow> isEntryHeader l"
  by (auto simp: matchClassHeader_def isEntryHeader_def split: if_splits)

subsection \<open>The entry text line by line\<close>

lemma entryText_lines:
  "entryText e = joinLines ([[], []] @ entryLines e @ [[], ''---'', [], []])"
  by (simp add: entryText_def classEntryText_def entryLines_def entryHeader_def)

lemma noBreaks_text:
  "nl \<notin> set a \<Longrightarrow> cr \<notin> set a \<Longrightarrow> CHR 0xE2 \<notin> set a \<Longrightarrow> CHR 0x80 \<notin> set a \<Longrightarrow>
   CHR 0xA8 \<notin> set a \<Longrightarrow> CHR 0xA9 \<notin> set a \<Longrightarrow> noBreaks s \<Longrightarrow> noBreaks (a @ s)"
  "nl \<notin> set a \<Longrightarrow> cr \<notin> set a \<Longrightarrow> CHR 0xE2 \<notin> set a \<Longrightarrow> CHR 0x80 \<notin> set a \<Longrightarrow>
   CHR 0xA8 \<notin> set a \<Longrightarrow> CHR 0xA9 \<notin> set a \<Longrightarrow> noBreaks s \<Longrightarrow> noBreaks (s @ a)"
proof -
  assume a: "nl \<notin> set a" "cr \<notin> set a" "CHR 0xE2 \<notin> set a" "CHR 0x80 \<notin> set a"
    "CHR 0xA8 \<notin> set a" "CHR 0xA9 \<notin> set a" and s: "noBreaks s"
  have n: "noBreaks a" using a by (intro noBreaks_bytes)
  have "a \<noteq> [] \<Longrightarrow> last a \<in> set a" "a \<noteq> [] \<Longrightarrow> hd a \<in> set a" by simp_all
  then have l: "a = [] \<or> (last a \<noteq> CHR 0xE2 \<and> last a \<noteq> CHR 0x80)"
    and h: "a = [] \<or> (hd a \<noteq> CHR 0x80 \<and> hd a \<noteq> CHR 0xA8 \<and> hd a \<noteq> CHR 0xA9)"
    using a by metis+
  show "noBreaks (a @ s)" using n s l by (intro noBreaks_append) auto
  show "noBreaks (s @ a)" using n s h by (intro noBreaks_append) auto
qed

lemma entryLines_noBreaks:
  assumes "plainEntry e" and "l \<in> set (entryLines e)"
  shows "noBreaks l"
proof -
  have t: "noBreaks (entryTime e)" and cn: "noBreaks (entryClass e @ entryNote e)"
    and u: "noBreaks (entryUnit e)"
    using assms(1) by (simp_all add: plainEntry_def)
  have d: "c \<notin> set (showNat n)"
    if "c = nl \<or> c = cr \<or> c = CHR 0xE2 \<or> c = CHR 0x80 \<or> c = CHR 0xA8 \<or> c = CHR 0xA9" for c n
    using that showNat_digits [of c n] by (auto simp: isDigit_def nl_def cr_def)
  have 1: "noBreaks (entryHeader e)"
  proof -
    have b: "noBreaks ('' - '' @ entryClass e @ entryNote e)"
      by (rule noBreaks_text(1) [OF _ _ _ _ _ _ cn]) (simp_all add: nl_def cr_def)
    have a: "noBreaks (entryTime e @ '' - '' @ entryClass e @ entryNote e)"
      by (rule noBreaks_append [OF t b]) simp
    show ?thesis
      unfolding entryHeader_def classHeaderLine_def
      by (rule noBreaks_text(1) [OF _ _ _ _ _ _ a]) (simp_all add: nl_def cr_def)
  qed
  have 2: "noBreaks (''**Unit:** [['' @ entryUnit e @ '']]  '')"
  proof -
    have a: "noBreaks (entryUnit e @ '']]  '')"
      by (rule noBreaks_text(2) [OF _ _ _ _ _ _ u]) (simp_all add: nl_def cr_def)
    show ?thesis by (rule noBreaks_text(1) [OF _ _ _ _ _ _ a]) (simp_all add: nl_def cr_def)
  qed
  have 3: "noBreaks (''**Day:** '' @ showNat (entryDay e) @ '' of '' @ showNat (entryTotal e) @ ''  '')"
    by (intro noBreaks_bytes) (simp_all add: d nl_def cr_def)
  have 4: "noBreaks (''**Lesson:** Day '' @ showNat (entryDay e))"
    by (intro noBreaks_bytes) (simp_all add: d nl_def cr_def)
  have 5: "noBreaks ''### Quick Reference''"
    by (intro noBreaks_bytes) (simp_all add: nl_def cr_def)
  have 6: "noBreaks (transclusionRef (entryUnit e) (entryDay e))"
  proof -
    have b: "noBreaks (''#Day '' @ showNat (entryDay e) @ '']]'')"
      by (intro noBreaks_bytes) (simp_all add: d nl_def cr_def)
    have a: "noBreaks (entryUnit e @ ''#Day '' @ showNat (entryDay e) @ '']]'')"
      by (rule noBreaks_append [OF u b]) simp
    show ?thesis
      unfolding transclusionRef_def by (rule noBreaks_text(1) [OF _ _ _ _ _ _ a]) (simp_all add: nl_def cr_def)
  qed
  from assms(2) 1 2 3 4 5 6 show ?thesis by (auto simp: entryLines_def)
qed

lemma entryLines_no_nl: "plainEntry e \<Longrightarrow> l \<in> set (entryLines e) \<Longrightarrow> nl \<notin> set l"
  using entryLines_noBreaks noBreaks_nl by blast

lemma entryLines_shape:
  "\<exists>body. entryLines e = entryHeader e # body
     \<and> (\<forall>l \<in> set body. \<not> isEntryHeader l \<and> \<not> isDivider l)"
proof -
  have s: "CHR ''*'' \<notin> spaceBytes" "CHR ''#'' \<notin> spaceBytes" "CHR ''!'' \<notin> spaceBytes"
    by (simp_all add: whiteSpace_bytes)
  have d: "\<not> isDivider (CHR ''*'' # r)" "\<not> isDivider (CHR ''#'' # r)"
    "\<not> isDivider (CHR ''!'' # r)" for r
    using not_divider_line s by simp_all
  show ?thesis
    by (simp add: entryLines_def isEntryHeader_def transclusionRef_def d)
qed

lemma entryHeader_isEntryHeader: "isEntryHeader (entryHeader e)"
  by (simp add: entryHeader_def classHeaderLine_def isEntryHeader_def)

lemma entryLines_no_dashes: "l \<in> set (entryLines e) \<Longrightarrow> take 3 l \<noteq> ''---''"
  by (auto simp: entryLines_def entryHeader_def classHeaderLine_def transclusionRef_def)

lemma entryLines_ends:
  "hd (joinLines (entryLines e)) \<notin> spaceBytes \<and> last (joinLines (entryLines e)) \<notin> spaceBytes"
  by (simp add: entryLines_def entryHeader_def classHeaderLine_def transclusionRef_def
      whiteSpace_bytes)

subsection \<open>Cleaning the entry text\<close>

lemma joinLines_append:
  "as \<noteq> [] \<Longrightarrow> bs \<noteq> [] \<Longrightarrow> joinLines (as @ bs) = joinLines as @ nl # joinLines bs"
proof (induction as rule: joinLines.induct)
  case 1
  then show ?case by simp
next
  case (2 l)
  then show ?case by (simp add: joinLines_Cons)
next
  case (3 l v va)
  then show ?case by simp
qed

lemma stripLeadingDividers_keep:
  "\<not> ((b = [] \<or> endsLine b) \<and> take 3 (c # cs) = ''---'') \<Longrightarrow>
     stripLeadingDividers b (c # cs) = c # stripLeadingDividers (b @ [c]) cs"
proof -
  assume a: "\<not> ((b = [] \<or> endsLine b) \<and> take 3 (c # cs) = ''---'')"
  show ?thesis by (subst stripLeadingDividers.simps) (simp only: a if_False)
qed

lemma stripTrailingDividers_keep:
  "\<not> (c = nl \<and> take 3 cs = ''---'') \<Longrightarrow>
     stripTrailingDividers (c # cs) = c # stripTrailingDividers cs"
proof -
  assume a: "\<not> (c = nl \<and> take 3 cs = ''---'')"
  show ?thesis by (subst stripTrailingDividers.simps) (simp only: a if_False)
qed

lemma stripLeadingDividers_inside:
  "noBreaks (p @ s) \<Longrightarrow> p \<noteq> [] \<Longrightarrow> b = [] \<or> last b = nl \<Longrightarrow>
     stripLeadingDividers (b @ p) (s @ nl # rest)
       = s @ nl # stripLeadingDividers (b @ p @ s @ [nl]) rest"
proof (induction s arbitrary: p)
  case Nil
  have "\<not> endsLine (b @ p)" using Nil by (intro endsLine_inside) simp_all
  then have "stripLeadingDividers (b @ p) (nl # rest)
             = nl # stripLeadingDividers ((b @ p) @ [nl]) rest"
    using Nil(2) by (intro stripLeadingDividers_keep) simp
  then show ?case by simp
next
  case (Cons c s)
  have "noBreaks p" using Cons.prems(1) by (rule noBreaks_prefix)
  then have "\<not> endsLine (b @ p)" using Cons.prems by (intro endsLine_inside) simp_all
  then have "stripLeadingDividers (b @ p) (c # s @ nl # rest)
             = c # stripLeadingDividers ((b @ p) @ [c]) (s @ nl # rest)"
    using Cons.prems(2) by (intro stripLeadingDividers_keep) simp
  moreover have "stripLeadingDividers (b @ (p @ [c])) (s @ nl # rest)
             = s @ nl # stripLeadingDividers (b @ (p @ [c]) @ s @ [nl]) rest"
    using Cons.prems by (intro Cons.IH) simp_all
  ultimately show ?case by simp
qed

lemma take3_line:
  assumes "nl \<notin> set l" and "take 3 l \<noteq> ''---''"
  shows "take 3 (l @ nl # rest) \<noteq> ''---''"
proof (cases l)
  case Nil
  then show ?thesis by (simp add: nl_def)
next
  case (Cons a l1)
  show ?thesis
  proof (cases l1)
    case Nil
    with Cons show ?thesis by (simp add: nl_def)
  next
    case (Cons b l2)
    note c2 = this
    show ?thesis
    proof (cases l2)
      case Nil
      with \<open>l = a # l1\<close> c2 show ?thesis by (simp add: nl_def)
    next
      case (Cons c l3)
      with \<open>l = a # l1\<close> c2 assms show ?thesis by simp
    qed
  qed
qed

lemma stripLeadingDividers_line:
  assumes "noBreaks l" and "take 3 l \<noteq> ''---''" and "b = [] \<or> last b = nl"
  shows "stripLeadingDividers b (l @ nl # rest)
         = l @ nl # stripLeadingDividers (b @ l @ [nl]) rest"
proof (cases l)
  case Nil
  have "take 3 (nl # rest) \<noteq> ''---''" by (simp add: nl_def)
  then have "stripLeadingDividers b (nl # rest) = nl # stripLeadingDividers (b @ [nl]) rest"
    by (intro stripLeadingDividers_keep) simp
  then show ?thesis unfolding Nil by simp
next
  case (Cons c s)
  have n: "take 3 (l @ nl # rest) \<noteq> ''---''"
    using take3_line [OF noBreaks_nl [OF assms(1)] assms(2)] .
  have "stripLeadingDividers b (c # s @ nl # rest)
        = c # stripLeadingDividers (b @ [c]) (s @ nl # rest)"
    using n unfolding Cons append_Cons by (intro stripLeadingDividers_keep) simp
  moreover have "stripLeadingDividers (b @ [c]) (s @ nl # rest)
        = s @ nl # stripLeadingDividers (b @ [c] @ s @ [nl]) rest"
    using assms(1,3) unfolding Cons by (intro stripLeadingDividers_inside) simp_all
  ultimately show ?thesis unfolding Cons by simp
qed

lemma stripLeadingDividers_lines:
  assumes "ls \<noteq> []" and "\<forall>l \<in> set ls. noBreaks l \<and> take 3 l \<noteq> ''---''"
    and "b = [] \<or> last b = nl"
  shows "stripLeadingDividers b (joinLines ls @ nl # rest)
         = joinLines ls @ nl # stripLeadingDividers (b @ joinLines ls @ [nl]) rest"
  using assms
proof (induction ls arbitrary: b rule: joinLines.induct)
  case 1
  then show ?case by simp
next
  case (2 l)
  then show ?case by (simp add: stripLeadingDividers_line)
next
  case (3 l v va)
  have "stripLeadingDividers b (l @ nl # (joinLines (v # va) @ nl # rest))
        = l @ nl # stripLeadingDividers (b @ l @ [nl]) (joinLines (v # va) @ nl # rest)"
    using 3(3,4) by (intro stripLeadingDividers_line) simp_all
  moreover have "stripLeadingDividers (b @ l @ [nl]) (joinLines (v # va) @ nl # rest)
        = joinLines (v # va) @ nl
          # stripLeadingDividers ((b @ l @ [nl]) @ joinLines (v # va) @ [nl]) rest"
    using 3(3) by (intro 3(1)) simp_all
  ultimately show ?case by simp
qed

lemma takeSpaces_feeds: "takeSpaces [nl, nl] = [nl, nl]" "dropSpaces [nl, nl] = []"
proof -
  have "find (\<lambda>w. w \<noteq> [] \<and> prefix w (nl # s)) whiteSpaces = Some [nl]" for s
    by (simp add: whiteSpaces_def nl_def cr_def lineSeparator_def paragraphSeparator_def)
  then have "seqRun whiteSpaces (nl # s) = [nl] # seqRun whiteSpaces s" for s
    by (subst seqRun.simps) simp
  then show "takeSpaces [nl, nl] = [nl, nl]" "dropSpaces [nl, nl] = []"
    by (simp_all add: dropSpaces_def takeSpaces_def spaceRun_def)
qed

lemma stripLeadingDividers_final:
  "stripLeadingDividers (b @ [nl]) (''---'' @ [nl, nl]) = []"
proof -
  have "stripLeadingDividers (b @ [nl]) (CHR ''-'' # (''--'' @ [nl, nl]))
        = stripLeadingDividers ((b @ [nl]) @ ''---'' @ takeSpaces [nl, nl]) (dropSpaces [nl, nl])"
    using endsLine_nl [of b] by (subst stripLeadingDividers.simps) (simp add: Let_def)
  then show ?thesis by (simp add: takeSpaces_feeds stripLeadingDividers.simps(1))
qed

lemma stripTrailingDividers_inside:
  "nl \<notin> set l \<Longrightarrow> stripTrailingDividers (l @ rest) = l @ stripTrailingDividers rest"
proof (induction l)
  case Nil
  show ?case by simp
next
  case (Cons c l)
  then have "c \<noteq> nl" by auto
  then have "stripTrailingDividers (c # (l @ rest)) = c # stripTrailingDividers (l @ rest)"
    by (intro stripTrailingDividers_keep) simp
  with Cons show ?case by simp
qed

lemma stripTrailingDividers_lines:
  assumes "\<forall>l \<in> set ls. nl \<notin> set l \<and> take 3 l \<noteq> ''---''"
  shows "stripTrailingDividers (joinLines ls) = joinLines ls"
  using assms
proof (induction ls rule: joinLines.induct)
  case 1
  show ?case by (simp add: stripTrailingDividers.simps)
next
  case (2 l)
  then show ?case
    using stripTrailingDividers_inside [of l "[]"] by (simp add: stripTrailingDividers.simps)
next
  case (3 l v va)
  have t: "take 3 (joinLines (v # va)) \<noteq> ''---''"
  proof (cases va)
    case Nil
    with 3 show ?thesis by simp
  next
    case (Cons w ws)
    have "take 3 (v @ nl # joinLines (w # ws)) \<noteq> ''---''"
      using 3(2) by (intro take3_line) simp_all
    then show ?thesis unfolding Cons by simp
  qed
  have "stripTrailingDividers (nl # joinLines (v # va)) = nl # stripTrailingDividers (joinLines (v # va))"
    using t by (intro stripTrailingDividers_keep) simp
  with 3 show ?case by (simp add: stripTrailingDividers_inside)
qed

lemma cleaned_entryText:
  assumes "plainEntry e"
  shows "splitLines (trim (stripTrailingDividers (stripLeadingDividers [] (entryText e))))
         = entryLines e"
proof -
  let ?A = "[[], []] @ entryLines e @ [[]]"
  have ne: "entryLines e \<noteq> []" by (simp add: entryLines_def)
  have A: "\<forall>l \<in> set ?A. noBreaks l \<and> take 3 l \<noteq> ''---''"
    using entryLines_noBreaks [OF assms] entryLines_no_dashes by auto
  have "entryText e = joinLines (?A @ [''---'', [], []])"
    by (simp add: entryText_lines)
  also have "\<dots> = joinLines ?A @ nl # (''---'' @ [nl, nl])"
    by (subst joinLines_append) simp_all
  finally have "stripLeadingDividers [] (entryText e)
      = joinLines ?A @ nl
        # stripLeadingDividers ([] @ joinLines ?A @ [nl]) (''---'' @ [nl, nl])"
    using stripLeadingDividers_lines [OF _ A, of "[]" "''---'' @ [nl, nl]"] by simp
  then have "stripLeadingDividers [] (entryText e) = joinLines ?A @ [nl]"
    by (simp only: append_Nil stripLeadingDividers_final)
  also have "joinLines ?A @ [nl] = joinLines (?A @ [[]])"
    by (subst joinLines_append) simp_all
  finally have 1: "stripLeadingDividers [] (entryText e) = joinLines (?A @ [[]])" .
  have 2: "stripTrailingDividers (joinLines (?A @ [[]])) = joinLines (?A @ [[]])"
    using A by (intro stripTrailingDividers_lines) (auto dest: noBreaks_nl)
  have "joinLines (entryLines e @ [[], []]) = joinLines (entryLines e) @ nl # joinLines [[], []]"
    using ne by (intro joinLines_append) simp_all
  then have 3: "joinLines (?A @ [[]]) = [nl, nl] @ joinLines (entryLines e) @ [nl, nl]"
    using ne by (simp add: joinLines_Cons)
  have js: "joinLines (entryLines e) \<noteq> []"
    by (simp add: entryLines_def entryHeader_def classHeaderLine_def)
  have 4: "trim ([nl, nl] @ joinLines (entryLines e) @ [nl, nl]) = joinLines (entryLines e)"
    using entryLines_ends [of e] js by (intro trim_core) simp_all
  have "splitLines (joinLines (entryLines e)) = entryLines e"
    using ne entryLines_no_nl [OF assms] by (intro splitLines_joinLines) auto
  moreover have "stripTrailingDividers (stripLeadingDividers [] (entryText e))
      = joinLines (?A @ [[]])"
    by (subst 1, rule 2)
  then have "trim (stripTrailingDividers (stripLeadingDividers [] (entryText e)))
      = joinLines (entryLines e)"
    by (simp only: 3 4)
  ultimately show ?thesis by (simp only:)
qed

lemma appended_entryText:
  assumes "plainEntry e"
  shows "splitLines (content @ [nl] @ entryText e @ [nl])
         = splitLines content @ [[], []] @ entryLines e @ [[], ''---'', [], [], []]"
proof -
  let ?B = "[[], []] @ entryLines e @ [[], ''---'', [], [], []]"
  have "entryText e @ [nl] = joinLines ([[], []] @ entryLines e @ [[], ''---'', [], []]) @ nl # joinLines [[]]"
    by (simp add: entryText_lines)
  also have "\<dots> = joinLines (([[], []] @ entryLines e @ [[], ''---'', [], []]) @ [[]])"
    by (subst joinLines_append) simp_all
  finally have e: "entryText e @ [nl] = joinLines ?B" by simp
  have "splitLines (joinLines ?B) = ?B"
    using entryLines_no_nl [OF assms] by (intro splitLines_joinLines) (auto simp: nl_def)
  then show ?thesis using e by (simp add: splitLines_append del: append_assoc)
qed

section \<open>Properties of the merge\<close>

lemma collectTimes_entries:
  "e \<in> set (fst (collectTimes new ls i)) \<Longrightarrow>
     i \<le> lineIndex e \<and> lineIndex e < i + length ls
     \<and> matchClassHeader (ls ! (lineIndex e - i)) = Some (existingTime e)
     \<and> existingMinutes e = parseTimeToMinutes (existingTime e)"
proof (induction ls arbitrary: i)
  case Nil
  then show ?case by simp
next
  case (Cons l ls)
  obtain es c where r: "collectTimes new ls (Suc i) = (es, c)"
    by (cases "collectTimes new ls (Suc i)")
  show ?case
  proof (cases "e \<in> set es")
    case True
    then have "e \<in> set (fst (collectTimes new ls (Suc i)))" by (simp add: r)
    from Cons.IH [OF this]
    have ih: "Suc i \<le> lineIndex e" "lineIndex e < Suc i + length ls"
      "matchClassHeader (ls ! (lineIndex e - Suc i)) = Some (existingTime e)"
      "existingMinutes e = parseTimeToMinutes (existingTime e)" by simp_all
    from ih(1) have "lineIndex e - i = Suc (lineIndex e - Suc i)" by simp
    then show ?thesis using ih by simp
  next
    case False
    with Cons.prems r obtain t where "matchClassHeader l = Some t"
      "e = \<lparr>existingTime = t, existingMinutes = parseTimeToMinutes t, lineIndex = i\<rparr>"
      by (auto split: option.splits)
    then show ?thesis by simp
  qed
qed

lemma collectTimes_conflict:
  "snd (collectTimes new ls i)
     = (\<exists>l \<in> set ls. \<exists>t. matchClassHeader l = Some t \<and> new = parseTimeToMinutes t)"
proof (induction ls arbitrary: i)
  case Nil
  show ?case by simp
next
  case (Cons l ls)
  obtain es c where r: "collectTimes new ls (Suc i) = (es, c)"
    by (cases "collectTimes new ls (Suc i)")
  with Cons [of "Suc i"] have c: "c = (\<exists>l \<in> set ls. \<exists>t. matchClassHeader l = Some t \<and> new = parseTimeToMinutes t)"
    by simp
  show ?case by (cases "matchClassHeader l") (auto simp: r c)
qed

text \<open>
  What one merge does to the lines of a document, for an entry without line breaks in
  its texts: either the entry (two blank lines, its lines, a blank line, a delimiter and
  three blank lines) is appended; or the entry is inserted above the delimiter found
  above a class header, with a new delimiter in front; or it is inserted before a class
  header above which no delimiter was found, followed by a new delimiter.
\<close>

lemma mergeEntry_lines:
  assumes "plainEntry e"
  shows "splitLines (newContent (mergeEntry content e)) = mergeLines (splitLines content) e"
proof -
  let ?ls = "splitLines content"
  let ?new = "parseTimeToMinutes (entryTime e)"
  obtain es c where ct: "collectTimes ?new ?ls 0 = (es, c)"
    by (cases "collectTimes ?new ?ls 0")
  have nonl: "\<forall>l \<in> set ?ls. nl \<notin> set l" using splitLines_no_nl by blast
  have el: "\<forall>l \<in> set (entryLines e). nl \<notin> set l" using entryLines_no_nl [OF assms] by blast
  have cl: "splitLines (trim (stripTrailingDividers (stripLeadingDividers [] (entryText e))))
            = entryLines e"
    by (rule cleaned_entryText [OF assms])
  show ?thesis
  proof (cases "find (\<lambda>x. ?new < existingMinutes x) (sort_key existingMinutes es)")
    case None
    then have "newContent (mergeEntry content e) = content @ [nl] @ entryText e @ [nl]"
      by (simp add: mergeEntry_def insertClassByTimeFixed_def ct Let_def)
    then show ?thesis
      using None appended_entryText [OF assms, of content] by (simp add: mergeLines_def ct)
  next
    case (Some x)
    note f = this
    show ?thesis
    proof (cases "findDividerAbove ?ls (lineIndex x)")
      case None
      let ?L = "take (lineIndex x) ?ls @ entryLines e @ [[], ''---''] @ drop (lineIndex x) ?ls"
      have "newContent (mergeEntry content e) = joinLines ?L"
        using f None by (simp add: mergeEntry_def insertClassByTimeFixed_def ct Let_def cl)
      moreover have "splitLines (joinLines ?L) = ?L"
        using nonl el by (intro splitLines_joinLines)
          (auto simp: nl_def dest: in_set_takeD in_set_dropD)
      ultimately show ?thesis using f None by (simp add: mergeLines_def ct)
    next
      case (Some a)
      let ?L = "take a ?ls @ [''---'', []] @ entryLines e @ [[]] @ drop a ?ls"
      have "newContent (mergeEntry content e) = joinLines ?L"
        using f Some by (simp add: mergeEntry_def insertClassByTimeFixed_def ct Let_def cl)
      moreover have "splitLines (joinLines ?L) = ?L"
        using nonl el by (intro splitLines_joinLines)
          (auto simp: nl_def dest: in_set_takeD in_set_dropD)
      ultimately show ?thesis using f Some by (simp add: mergeLines_def ct)
    qed
  qed
qed

lemma mergeLines_cases:
  obtains
    (appended)
      "mergeLines ls e = ls @ [[], []] @ entryLines e @ [[], ''---'', [], [], []]"
  | (above) k a where "k < length ls"
      and "matchClassHeader (ls ! k) \<noteq> None"
      and "findDividerAbove ls k = Some a"
      and "mergeLines ls e = take a ls @ [''---'', []] @ entryLines e @ [[]] @ drop a ls"
  | (before) k where "k < length ls"
      and "matchClassHeader (ls ! k) \<noteq> None"
      and "findDividerAbove ls k = None"
      and "mergeLines ls e = take k ls @ entryLines e @ [[], ''---''] @ drop k ls"
proof -
  let ?new = "parseTimeToMinutes (entryTime e)"
  let ?es = "fst (collectTimes ?new ls 0)"
  show thesis
  proof (cases "find (\<lambda>x. ?new < existingMinutes x) (sort_key existingMinutes ?es)")
    case None
    then show ?thesis using appended by (simp add: mergeLines_def)
  next
    case (Some x)
    note f = this
    then obtain i where "i < length (sort_key existingMinutes ?es)"
      "x = sort_key existingMinutes ?es ! i"
      unfolding find_Some_iff by blast
    then have "x \<in> set (sort_key existingMinutes ?es)" using nth_mem by blast
    then have "x \<in> set (fst (collectTimes ?new ls 0))" by simp
    from collectTimes_entries [OF this]
    have k: "lineIndex x < length ls" "matchClassHeader (ls ! lineIndex x) \<noteq> None"
      by simp_all
    show ?thesis
    proof (cases "findDividerAbove ls (lineIndex x)")
      case None
      then show ?thesis using before [OF k None] f by (simp add: mergeLines_def)
    next
      case (Some a)
      then show ?thesis using above [OF k Some] f by (simp add: mergeLines_def)
    qed
  qed
qed

lemma mergeEntry_cases:
  assumes "plainEntry e"
  obtains
    (appended)
      "splitLines (newContent (mergeEntry content e))
         = splitLines content @ [[], []] @ entryLines e @ [[], ''---'', [], [], []]"
  | (above) k a where "k < length (splitLines content)"
      and "matchClassHeader (splitLines content ! k) \<noteq> None"
      and "findDividerAbove (splitLines content) k = Some a"
      and "splitLines (newContent (mergeEntry content e))
         = take a (splitLines content) @ [''---'', []] @ entryLines e @ [[]]
           @ drop a (splitLines content)"
  | (before) k where "k < length (splitLines content)"
      and "matchClassHeader (splitLines content ! k) \<noteq> None"
      and "findDividerAbove (splitLines content) k = None"
      and "splitLines (newContent (mergeEntry content e))
         = take k (splitLines content) @ entryLines e @ [[], ''---'']
           @ drop k (splitLines content)"
  using mergeLines_cases [of "splitLines content" e]
  unfolding mergeEntry_lines [OF assms, symmetric] by blast

lemma mergeEntry_conflict:
  "conflict (mergeEntry content e)
     = (\<exists>l \<in> set (splitLines content). \<exists>t. matchClassHeader l = Some t
          \<and> parseTimeToMinutes (entryTime e) = parseTimeToMinutes t)"
proof -
  obtain es c where ct: "collectTimes (parseTimeToMinutes (entryTime e)) (splitLines content) 0 = (es, c)"
    by (cases "collectTimes (parseTimeToMinutes (entryTime e)) (splitLines content) 0")
  have "conflict (mergeEntry content e) = c"
    by (simp add: mergeEntry_def insertClassByTimeFixed_def ct Let_def split: option.splits)
  then show ?thesis using collectTimes_conflict [of "parseTimeToMinutes (entryTime e)" "splitLines content" 0]
    by (simp add: ct)
qed

subsection \<open>Conflicts\<close>

lemma subseq_insertion: "subseq xs (take a xs @ ins @ drop a xs)"
proof -
  have "subseq (take a xs @ drop a xs) (take a xs @ ins @ drop a xs)"
    by (intro list_emb_append_mono subseq_order.order_refl subseq_drop_many)
  then show ?thesis by simp
qed

lemma mergeEntry_keeps_lines:
  assumes "plainEntry e"
  shows "subseq (splitLines content) (splitLines (newContent (mergeEntry content e)))
         \<and> subseq (entryLines e) (splitLines (newContent (mergeEntry content e)))"
proof (rule mergeEntry_cases [OF assms, of content], goal_cases)
  case 1
  have "subseq (splitLines content)
          (splitLines content @ ([[], []] @ entryLines e @ [[], ''---'', [], [], []]))"
    by (rule subseq_rev_drop_many) simp
  moreover have "subseq (entryLines e)
          (splitLines content @ [[], []] @ (entryLines e @ [[], ''---'', [], [], []]))"
    by (intro subseq_drop_many subseq_rev_drop_many) simp
  ultimately show ?thesis using 1 by simp
next
  case (2 k a)
  have "subseq (entryLines e)
          (take a (splitLines content) @ [''---'', []] @ (entryLines e @ ([[]] @ drop a (splitLines content))))"
    by (intro subseq_drop_many subseq_rev_drop_many) simp
  moreover have "subseq (splitLines content)
          (take a (splitLines content) @ ([''---'', []] @ entryLines e @ [[]])
           @ drop a (splitLines content))"
    by (rule subseq_insertion)
  ultimately show ?thesis using 2(4) by simp
next
  case (3 k)
  have "subseq (entryLines e)
          (take k (splitLines content) @ (entryLines e @ ([[], ''---''] @ drop k (splitLines content))))"
    by (intro subseq_drop_many subseq_rev_drop_many) simp
  moreover have "subseq (splitLines content)
          (take k (splitLines content) @ (entryLines e @ [[], ''---''])
           @ drop k (splitLines content))"
    by (rule subseq_insertion)
  ultimately show ?thesis using 3(4) by simp
qed

lemma matchClassHeader_classHeaderLine:
  assumes "matchTime t \<noteq> None"
  shows "matchClassHeader (classHeaderLine t c n) = Some t"
proof (cases t rule: matchTime.cases)
  case (1 h k m1 m2)
  with assms have d: "isDigit h" "k = CHR '':''" "isDigit m1" "isDigit m2"
    by (auto split: if_splits)
  have "\<not> isDigit CHR '':''" by (simp add: isDigit_def)
  then show ?thesis
    using d unfolding 1 by (simp add: matchClassHeader_def classHeaderLine_def)
next
  case (2 h1 h2 k m1 m2)
  with assms have d: "isDigit h1" "isDigit h2" "k = CHR '':''" "isDigit m1" "isDigit m2"
    by (auto split: if_splits)
  then show ?thesis
    unfolding 2 by (simp add: matchClassHeader_def classHeaderLine_def)
qed (use assms in simp_all)

lemma entryHeader_in_entryLines: "entryHeader e \<in> set (entryLines e)"
  by (simp add: entryLines_def)

section \<open>The delimiter discipline\<close>

lemma scanFrom_Nil [simp]: "scanFrom s [] = s"
  by (simp add: scanFrom_def)

lemma scanFrom_Cons [simp]: "scanFrom s (l # ls) = scanFrom (scanStep s l) ls"
  by (simp add: scanFrom_def)

lemma scanFrom_append [simp]: "scanFrom s (xs @ ys) = scanFrom (scanFrom s xs) ys"
  by (simp add: scanFrom_def)

lemma scanFrom_Broken [simp]: "scanFrom Broken ls = Broken"
  by (induction ls) simp_all

lemma scanStep_blank [simp]: "s \<noteq> Broken \<Longrightarrow> scanStep s [] = s"
  by (cases s) simp_all

lemma scanStep_header:
  "isEntryHeader l \<Longrightarrow> scanStep s l = (if s = BeforeEntries \<or> s = AfterDivider then InEntry else Broken)"
  by (cases s) simp_all

lemma blank_not_divider: "isBlank l \<Longrightarrow> \<not> isDivider l"
  by (auto simp: isBlank_def isDivider_def)

lemma scanStep_divider:
  "isDivider l \<Longrightarrow> scanStep s l =
     (case s of BeforeEntries \<Rightarrow> BeforeEntries | InEntry \<Rightarrow> AfterDivider | _ \<Rightarrow> Broken)"
  using header_not_divider [of l] blank_not_divider [of l] by (cases s) auto

lemma scanFrom_body:
  "\<forall>l \<in> set body. \<not> isEntryHeader l \<and> \<not> isDivider l \<Longrightarrow> scanFrom InEntry body = InEntry"
  by (induction body) simp_all

lemma scanFrom_entryLines:
  assumes "s = BeforeEntries \<or> s = AfterDivider"
  shows "scanFrom s (entryLines e) = InEntry"
proof -
  obtain body where b: "entryLines e = entryHeader e # body"
    "\<forall>l \<in> set body. \<not> isEntryHeader l \<and> \<not> isDivider l"
    using entryLines_shape [of e] by blast
  have "scanStep s (entryHeader e) = InEntry"
    using assms by (simp add: scanStep_header [OF entryHeader_isEntryHeader])
  then show ?thesis by (simp add: b(1) scanFrom_body [OF b(2)])
qed

lemma scanFrom_no_headers:
  "\<forall>l \<in> set ls. \<not> isEntryHeader l \<Longrightarrow> scanFrom BeforeEntries ls = BeforeEntries"
  by (induction ls) simp_all

lemma scanFrom_before_means_no_headers:
  "scanFrom BeforeEntries ls = BeforeEntries \<Longrightarrow> l \<in> set ls \<Longrightarrow> \<not> isEntryHeader l"
proof (induction ls rule: rev_induct)
  case Nil
  then show ?case by simp
next
  case (snoc x xs)
  have x: "scanStep (scanFrom BeforeEntries xs) x = BeforeEntries" using snoc.prems(1) by simp
  then have "scanFrom BeforeEntries xs = BeforeEntries \<and> \<not> isEntryHeader x"
    by (cases "scanFrom BeforeEntries xs") (auto split: if_splits)
  with snoc show ?case by auto
qed

lemma scanFrom_blanks:
  "s \<noteq> Broken \<Longrightarrow> \<forall>l \<in> set ls. isBlank l \<and> \<not> isEntryHeader l \<Longrightarrow> scanFrom s ls = s"
proof (induction ls)
  case Nil
  show ?case by simp
next
  case (Cons l ls)
  then have "scanStep s l = s"
    using blank_not_divider [of l] by (cases s) auto
  with Cons show ?case by simp
qed

text \<open>After a delimiter only blank lines have been read.\<close>

lemma scanFrom_after_divider:
  "scanFrom s0 ls = AfterDivider \<Longrightarrow> s0 \<noteq> AfterDivider \<Longrightarrow>
     \<exists>p d b. ls = p @ [d] @ b \<and> isDivider d \<and> scanFrom s0 p = InEntry
       \<and> (\<forall>l \<in> set b. isBlank l \<and> \<not> isEntryHeader l)"
proof (induction ls rule: rev_induct)
  case Nil
  then show ?case by simp
next
  case (snoc x xs)
  have x: "scanStep (scanFrom s0 xs) x = AfterDivider" using snoc.prems(1) by simp
  show ?case
  proof (cases "scanFrom s0 xs")
    case BeforeEntries
    with x show ?thesis by (auto split: if_splits)
  next
    case InEntry
    with x have "isDivider x" by (auto split: if_splits)
    with InEntry show ?thesis by (intro exI [of _ xs] exI [of _ x] exI [of _ "[]"]) simp
  next
    case AfterDivider
    with x have b: "isBlank x" "\<not> isEntryHeader x" by (auto split: if_splits)
    from snoc.IH [OF AfterDivider snoc.prems(2)]
    obtain p d b where "xs = p @ [d] @ b" "isDivider d" "scanFrom s0 p = InEntry"
      "\<forall>l \<in> set b. isBlank l \<and> \<not> isEntryHeader l" by blast
    with b show ?thesis
      by (intro exI [of _ p] exI [of _ d] exI [of _ "b @ [x]"]) simp
  next
    case Broken
    with x show ?thesis by simp
  qed
qed

subsection \<open>The search for a delimiter above the insertion point\<close>

lemma findDividerAbove_Some:
  "findDividerAbove ls k = Some a \<Longrightarrow> k \<le> length ls \<Longrightarrow>
     a < k \<and> isDivider (ls ! a)
     \<and> (\<exists>m. take k ls = take a ls @ [ls ! a] @ m
            \<and> (\<forall>l \<in> set m. \<not> isDivider l \<and> (isBlank l \<or> isEntryHeader l)))"
proof (induction k)
  case 0
  then show ?case by simp
next
  case (Suc i)
  have i: "i < length ls" using Suc.prems(2) by simp
  show ?case
  proof (cases "trim (ls ! i) = ''---''")
    case True
    with Suc.prems(1) have "a = i" by simp
    with True i show ?thesis
      by (simp add: isDivider_def take_Suc_conv_app_nth)
  next
    case False
    with Suc.prems(1) have c: "\<not> (trim (ls ! i) \<noteq> [] \<and> matchClassHeader (ls ! i) = None)"
      and r: "findDividerAbove ls i = Some a"
      by (auto split: if_splits)
    from Suc.IH [OF r] i obtain m where m: "a < i" "isDivider (ls ! a)"
      "take i ls = take a ls @ [ls ! a] @ m"
      "\<forall>l \<in> set m. \<not> isDivider l \<and> (isBlank l \<or> isEntryHeader l)" by auto
    have x: "\<not> isDivider (ls ! i) \<and> (isBlank (ls ! i) \<or> isEntryHeader (ls ! i))"
      using False c matchClassHeader_isEntryHeader [of "ls ! i"]
      by (auto simp: isDivider_def isBlank_def)
    have "take (Suc i) ls = take a ls @ [ls ! a] @ (m @ [ls ! i])"
      using m(3) i by (simp add: take_Suc_conv_app_nth)
    with m x show ?thesis by (intro conjI exI [of _ "m @ [ls ! i]"]) auto
  qed
qed

lemma findDividerAbove_blanks:
  "isDivider d \<Longrightarrow> \<forall>l \<in> set b. isBlank l \<Longrightarrow>
     findDividerAbove (p @ [d] @ b @ r) (Suc (length p + length b)) = Some (length p)"
proof (induction b arbitrary: r rule: rev_induct)
  case Nil
  then show ?case by (simp add: isDivider_def)
next
  case (snoc x xs)
  have x: "trim x = []" using snoc.prems(2) by (simp add: isBlank_def)
  have n: "(p @ [d] @ (xs @ [x]) @ r) ! (Suc (length p + length xs)) = x"
    by (simp add: nth_append)
  have "findDividerAbove (p @ [d] @ (xs @ [x]) @ r) (Suc (Suc (length p + length xs)))
        = findDividerAbove (p @ [d] @ (xs @ [x]) @ r) (Suc (length p + length xs))"
    using n x by simp
  also have "\<dots> = Some (length p)"
    using snoc.IH [OF snoc.prems(1), of "x # r"] snoc.prems(2) by simp
  finally show ?case by simp
qed

lemma scanFrom_never_after_divider:
  "\<forall>l \<in> set m. \<not> isDivider l \<Longrightarrow> s \<noteq> AfterDivider \<Longrightarrow> scanFrom s m \<noteq> AfterDivider"
proof (induction m arbitrary: s)
  case Nil
  then show ?case by simp
next
  case (Cons l m)
  have "scanStep s l \<noteq> AfterDivider" using Cons.prems by (cases s) auto
  with Cons show ?case by simp
qed

subsection \<open>One merge keeps the shape\<close>

lemma mergeLines_wellShaped:
  assumes "wellShaped ls"
  shows "wellShaped (mergeLines ls e)"
proof (rule mergeLines_cases [of ls e], goal_cases)
  case 1
  have s: "scanFrom BeforeEntries ls = BeforeEntries \<or> scanFrom BeforeEntries ls = AfterDivider"
    using assms by (simp add: wellShaped_def)
  define s0 where "s0 = scanFrom BeforeEntries ls"
  have s0: "s0 = BeforeEntries \<or> s0 = AfterDivider" using s by (simp add: s0_def)
  have b: "scanFrom s0 [[], []] = s0" using s0 by auto
  have "scanFrom s0 ([[], []] @ entryLines e) = scanFrom (scanFrom s0 [[], []]) (entryLines e)"
    by (rule scanFrom_append)
  also have "\<dots> = InEntry" unfolding b using s0 by (rule scanFrom_entryLines)
  finally have c: "scanFrom s0 ([[], []] @ entryLines e) = InEntry" .
  have "scanFrom s0 (([[], []] @ entryLines e) @ [[], ''---'', [], [], []])
        = scanFrom InEntry [[], ''---'', [], [], []]"
    unfolding scanFrom_append [of s0 "[[], []] @ entryLines e"] c ..
  also have "\<dots> = AfterDivider" by (simp add: scanStep_divider)
  finally have "scanFrom BeforeEntries (ls @ ([[], []] @ entryLines e) @ [[], ''---'', [], [], []])
             = AfterDivider"
    unfolding scanFrom_append [of BeforeEntries ls] s0_def .
  then show ?case using 1 by (simp add: wellShaped_def)
next
  case (2 k a)
  let ?P = "take a ls" and ?d = "ls ! a" and ?h = "ls ! k" and ?R = "drop (Suc k) ls"
  from findDividerAbove_Some [OF 2(3)] 2(1)
  obtain m where m: "a < k" "isDivider ?d" "take k ls = ?P @ [?d] @ m"
    "\<forall>l \<in> set m. \<not> isDivider l \<and> (isBlank l \<or> isEntryHeader l)" by auto
  have h: "isEntryHeader ?h" using 2(2) matchClassHeader_isEntryHeader by auto
  have nd: "\<not> isEntryHeader ?d" using m(2) header_not_divider by blast
  have ls: "ls = ?P @ [?d] @ m @ ?h # ?R"
    using m(3) 2(1) by (metis append_assoc append_take_drop_id Cons_nth_drop_Suc)
  have "?P @ drop a ls = ?P @ ([?d] @ m @ ?h # ?R)" using ls by simp
  then have dr: "drop a ls = [?d] @ m @ ?h # ?R" by (simp only: same_append_eq)
  define sa where "sa = scanFrom BeforeEntries ?P"
  have old: "scanFrom BeforeEntries ls = scanFrom (scanStep (scanFrom (scanStep sa ?d) m) ?h) ?R"
    by (subst ls) (simp add: sa_def)
  have acc: "scanFrom BeforeEntries ls = BeforeEntries \<or> scanFrom BeforeEntries ls = AfterDivider"
    using assms by (simp add: wellShaped_def)
  have new: "scanFrom BeforeEntries (mergeLines ls e)
      = scanFrom (scanFrom (scanFrom (scanFrom sa [''---'', []]) (entryLines e)) [[]])
          ([?d] @ m @ ?h # ?R)"
    unfolding 2(4) dr sa_def by (simp only: scanFrom_append)
  show ?case
  proof (cases sa)
    case InEntry
    have "scanFrom sa [''---'', []] = AfterDivider"
      using InEntry by (simp add: scanStep_divider)
    then have "scanFrom (scanFrom (scanFrom sa [''---'', []]) (entryLines e)) [[]] = InEntry"
      by (simp add: scanFrom_entryLines)
    then have "scanFrom BeforeEntries (mergeLines ls e) = scanFrom BeforeEntries ls"
      unfolding new old InEntry by simp
    then show ?thesis using assms by (simp add: wellShaped_def)
  next
    case BeforeEntries
    have 1: "scanFrom sa [''---'', []] = BeforeEntries"
      using BeforeEntries by (simp add: scanStep_divider)
    have 2: "scanFrom (scanFrom (scanFrom sa [''---'', []]) (entryLines e)) [[]] = InEntry"
      unfolding 1 by (simp add: scanFrom_entryLines)
    have sd: "scanStep sa ?d = BeforeEntries"
      using BeforeEntries m(2) nd by simp
    define t where "t = scanFrom BeforeEntries m"
    have tn: "t \<noteq> AfterDivider"
      unfolding t_def using m(4) by (intro scanFrom_never_after_divider) auto
    have "scanFrom (scanStep t ?h) ?R \<noteq> Broken" using acc old sd by (auto simp: t_def)
    then have "scanStep t ?h \<noteq> Broken" by auto
    then have "t = BeforeEntries" using h tn by (cases t) (auto simp: scanStep_header)
    then have nh: "\<forall>l \<in> set m. \<not> isEntryHeader l"
      using scanFrom_before_means_no_headers [of m] by (auto simp: t_def)
    then have bl: "\<forall>l \<in> set m. isBlank l \<and> \<not> isEntryHeader l" using m(4) by auto
    have o: "scanFrom BeforeEntries ls = scanFrom InEntry ?R"
      unfolding old sd using \<open>t = BeforeEntries\<close> h by (simp add: t_def scanStep_header)
    have "scanFrom InEntry ([?d] @ m @ ?h # ?R) = scanFrom InEntry ?R"
      using m(2) nd h scanFrom_blanks [OF _ bl, of AfterDivider]
      by (simp add: scanStep_header)
    then have "scanFrom BeforeEntries (mergeLines ls e) = scanFrom BeforeEntries ls"
      unfolding new 2 o by simp
    then show ?thesis using assms by (simp add: wellShaped_def)
  next
    case AfterDivider
    then have "scanStep sa ?d = Broken"
      using m(2) nd blank_not_divider [of ?d] by auto
    then show ?thesis using acc old by simp
  next
    case Broken
    then show ?thesis using acc old by simp
  qed
next
  case (3 k)
  let ?P = "take k ls" and ?h = "ls ! k" and ?R = "drop (Suc k) ls"
  have h: "isEntryHeader ?h" using 3(2) matchClassHeader_isEntryHeader by auto
  have dr: "drop k ls = ?h # ?R" using 3(1) by (simp add: Cons_nth_drop_Suc)
  have ls: "ls = ?P @ ?h # ?R" using dr by (metis append_take_drop_id)
  define sk where "sk = scanFrom BeforeEntries ?P"
  have old: "scanFrom BeforeEntries ls = scanFrom (scanStep sk ?h) ?R"
    by (subst ls) (simp add: sk_def)
  have acc: "scanFrom BeforeEntries ls = BeforeEntries \<or> scanFrom BeforeEntries ls = AfterDivider"
    using assms by (simp add: wellShaped_def)
  have new: "scanFrom BeforeEntries (mergeLines ls e)
      = scanFrom (scanFrom (scanFrom sk (entryLines e)) [[], ''---'']) (?h # ?R)"
    unfolding 3(4) dr sk_def by (simp only: scanFrom_append)
  show ?case
  proof (cases sk)
    case BeforeEntries
    have "scanFrom (scanFrom sk (entryLines e)) [[], ''---''] = AfterDivider"
      using BeforeEntries by (simp add: scanFrom_entryLines scanStep_divider)
    then have "scanFrom BeforeEntries (mergeLines ls e) = scanFrom BeforeEntries ls"
      unfolding new old using BeforeEntries h by (simp add: scanStep_header)
    then show ?thesis using assms by (simp add: wellShaped_def)
  next
    case AfterDivider
    then obtain p d b where p: "?P = p @ [d] @ b" "isDivider d"
      "\<forall>l \<in> set b. isBlank l \<and> \<not> isEntryHeader l"
      using scanFrom_after_divider [of BeforeEntries ?P] by (auto simp: sk_def)
    have "length ?P = k" using 3(1) by simp
    then have k: "k = Suc (length p + length b)" using p(1) by simp
    have "ls = p @ [d] @ b @ (?h # ?R)" using ls p(1) by simp
    then have "findDividerAbove ls k = findDividerAbove (p @ [d] @ b @ (?h # ?R)) (Suc (length p + length b))"
      using k by simp
    also have "\<dots> = Some (length p)"
      using p by (intro findDividerAbove_blanks) auto
    finally show ?thesis using 3(3) by simp
  next
    case InEntry
    then have "scanStep sk ?h = Broken" using h by (simp add: scanStep_header)
    then show ?thesis using acc old by simp
  next
    case Broken
    then show ?thesis using acc old by simp
  qed
qed

subsection \<open>A well-shaped document has one delimiter after every entry\<close>

lemma wellShaped_counts:
  "scanFrom s ls = BeforeEntries \<or> scanFrom s ls = AfterDivider \<Longrightarrow>
     list_all (\<lambda>n. n = 1) (dividerCounts ls)
     \<and> (s = InEntry \<longrightarrow> dividersAhead ls = 1)
     \<and> (s = AfterDivider \<longrightarrow> dividersAhead ls = 0)"
proof (induction ls arbitrary: s)
  case Nil
  then show ?case by auto
next
  case (Cons l ls)
  have nb: "scanStep s l \<noteq> Broken" using Cons.prems by auto
  note ih = Cons.IH [of "scanStep s l"]
  have acc: "scanFrom (scanStep s l) ls = BeforeEntries \<or> scanFrom (scanStep s l) ls = AfterDivider"
    using Cons.prems by simp
  show ?case
  proof (cases "isEntryHeader l")
    case True
    with nb have "scanStep s l = InEntry" "s \<noteq> InEntry"
      by (auto simp: scanStep_header split: if_splits)
    with ih [OF acc] True show ?thesis by simp
  next
    case False
    note nh = this
    show ?thesis
    proof (cases "isDivider l")
      case True
      with nb nh have "s = BeforeEntries \<and> scanStep s l = BeforeEntries
          \<or> s = InEntry \<and> scanStep s l = AfterDivider"
        using blank_not_divider [of l] by (cases s) (auto split: if_splits)
      with ih [OF acc] nh True show ?thesis by auto
    next
      case False
      with nb nh have "scanStep s l = s" by (cases s) (auto split: if_splits)
      with ih [OF acc] nh False show ?thesis by auto
    qed
  qed
qed

lemma dividerCounts_length: "length (dividerCounts ls) = length (filter isEntryHeader ls)"
  by (induction ls) simp_all

lemma entryLines_one_header: "length (filter isEntryHeader (entryLines e)) = 1"
proof -
  obtain body where b: "entryLines e = entryHeader e # body"
    "\<forall>l \<in> set body. \<not> isEntryHeader l \<and> \<not> isDivider l"
    using entryLines_shape [of e] by blast
  have "filter isEntryHeader body = []" using b(2) by (induction body) auto
  then show ?thesis by (simp add: b(1) entryHeader_isEntryHeader)
qed

lemma filter_insertion:
  "length (filter P (take a xs @ ins @ drop a xs)) = length (filter P xs) + length (filter P ins)"
proof -
  have "length (filter P xs) = length (filter P (take a xs @ drop a xs))" by simp
  also have "\<dots> = length (filter P (take a xs)) + length (filter P (drop a xs))"
    by (simp only: filter_append length_append)
  finally show ?thesis by simp
qed

lemma mergeLines_one_more_header:
  "length (filter isEntryHeader (mergeLines ls e)) = Suc (length (filter isEntryHeader ls))"
proof (rule mergeLines_cases [of ls e], goal_cases)
  case 1
  then show ?case by (simp add: entryLines_one_header)
next
  case (2 k a)
  have "length (filter isEntryHeader (take a ls @ ([''---'', []] @ entryLines e @ [[]]) @ drop a ls))
        = length (filter isEntryHeader ls)
          + length (filter isEntryHeader ([''---'', []] @ entryLines e @ [[]]))"
    by (rule filter_insertion)
  then show ?case using 2(4) by (simp add: entryLines_one_header)
next
  case (3 k)
  have "length (filter isEntryHeader (take k ls @ (entryLines e @ [[], ''---'']) @ drop k ls))
        = length (filter isEntryHeader ls)
          + length (filter isEntryHeader (entryLines e @ [[], ''---'']))"
    by (rule filter_insertion)
  then show ?case using 3(4) by (simp add: entryLines_one_header)
qed

lemma all_ones: "list_all (\<lambda>n. n = 1) xs \<Longrightarrow> xs = replicate (length xs) (1::nat)"
  by (induction xs) simp_all

lemma mergeAll_Cons: "mergeAll content (e # es) = mergeAll (newContent (mergeEntry content e)) es"
  by (simp add: mergeAll_def)

lemma mergeAll_shape:
  assumes "\<forall>e \<in> set es. plainEntry e" and "wellShaped (splitLines content)"
  shows "wellShaped (splitLines (mergeAll content es))
         \<and> length (filter isEntryHeader (splitLines (mergeAll content es)))
             = length (filter isEntryHeader (splitLines content)) + length es"
  using assms
proof (induction es arbitrary: content)
  case Nil
  then show ?case by (simp add: mergeAll_def)
next
  case (Cons e es)
  have p: "plainEntry e" using Cons.prems(1) by simp
  let ?c = "newContent (mergeEntry content e)"
  have l: "splitLines ?c = mergeLines (splitLines content) e" by (rule mergeEntry_lines [OF p])
  have w: "wellShaped (splitLines ?c)"
    unfolding l using Cons.prems(2) by (rule mergeLines_wellShaped)
  have n: "length (filter isEntryHeader (splitLines ?c))
           = Suc (length (filter isEntryHeader (splitLines content)))"
    unfolding l by (rule mergeLines_one_more_header)
  have r: "\<forall>e \<in> set es. plainEntry e" using Cons.prems(1) by simp
  from Cons.IH [OF r w]
  have "wellShaped (splitLines (mergeAll ?c es))"
    and "length (filter isEntryHeader (splitLines (mergeAll ?c es)))
         = length (filter isEntryHeader (splitLines ?c)) + length es"
    by blast+
  then show ?case unfolding mergeAll_Cons n by simp
qed

text \<open>
  Claim C9. Start from a document without entry blocks (no line begins an entry) and
  merge any number of entries built from the template (texts without line breaks), one
  after the other, through \<open>insertClassByTimeFixed\<close>. Then the document holds as many
  entry headers as there were merges, and after every one of them there is exactly one
  delimiter line before the next entry header or the end of the document: never none,
  never two. A delimiter line is a line that is three dashes once trimmed, which is how
  the merge itself looks for one; \<open>trim()\<close> takes off all white space, the white space
  outside ASCII included.
\<close>

theorem mergeAll_divider_discipline:
  assumes "\<forall>e \<in> set es. plainEntry e"
    and "\<forall>l \<in> set (splitLines content). \<not> isEntryHeader l"
  shows "dividerCounts (splitLines (mergeAll content es)) = replicate (length es) 1"
proof -
  have w0: "wellShaped (splitLines content)"
    using scanFrom_no_headers [OF assms(2)] by (simp add: wellShaped_def)
  have f0: "filter isEntryHeader (splitLines content) = []"
    using assms(2) by (simp add: filter_empty_conv)
  from mergeAll_shape [OF assms(1) w0]
  have w: "wellShaped (splitLines (mergeAll content es))"
    and n: "length (filter isEntryHeader (splitLines (mergeAll content es))) = length es"
    by (simp_all add: f0)
  have "list_all (\<lambda>n. n = 1) (dividerCounts (splitLines (mergeAll content es)))"
    using wellShaped_counts [of BeforeEntries "splitLines (mergeAll content es)"] w
    by (simp add: wellShaped_def)
  moreover have "length (dividerCounts (splitLines (mergeAll content es))) = length es"
    using n by (simp add: dividerCounts_length)
  ultimately show ?thesis
    using all_ones [of "dividerCounts (splitLines (mergeAll content es))"] by simp
qed

section \<open>Conflicts\<close>

text \<open>
  One merge puts the lines of the entry, with blank lines and one delimiter around
  them, at one place of the document: at its end, or in front of a line that is an entry
  header or a delimiter. Nothing else changes.
\<close>

lemma mergeLines_insertion:
  "\<exists>a pre post.
     mergeLines ls e = take a ls @ pre @ entryLines e @ post @ drop a ls
     \<and> set (pre @ post) \<subseteq> {[], ''---''}
     \<and> (length ls \<le> a \<or> isEntryHeader (ls ! a) \<or> isDivider (ls ! a))"
proof (rule mergeLines_cases [of ls e], goal_cases)
  case 1
  show ?case
    by (intro exI [of _ "length ls"] exI [of _ "[[], []]"] exI [of _ "[[], ''---'', [], [], []]"])
      (simp add: 1)
next
  case (2 k a)
  from findDividerAbove_Some [OF 2(3)] 2(1) have "isDivider (ls ! a)" by simp
  then show ?case
    by (intro exI [of _ a] exI [of _ "[''---'', []]"] exI [of _ "[[]]"]) (simp add: 2(4))
next
  case (3 k)
  have "isEntryHeader (ls ! k)" using 3(2) matchClassHeader_isEntryHeader by auto
  then show ?case
    by (intro exI [of _ k] exI [of _ "[]"] exI [of _ "[[], ''---'']"]) (simp add: 3(4))
qed

text \<open>An entry block that stands in the document is not torn apart by a merge: no line
  of its body is an entry header or a delimiter.\<close>

lemma block_survives:
  assumes "sublist (h # body) ls"
    and "\<forall>l \<in> set body. \<not> isEntryHeader l \<and> \<not> isDivider l"
    and "length ls \<le> a \<or> isEntryHeader (ls ! a) \<or> isDivider (ls ! a)"
  shows "sublist (h # body) (take a ls @ ins @ drop a ls)"
proof -
  obtain p r where ls: "ls = p @ (h # body) @ r"
    using assms(1) by (auto simp: sublist_def)
  consider "a \<le> length p" | "length p + length (h # body) \<le> a"
    | "length p < a" "a < length p + length (h # body)" by linarith
  then show ?thesis
  proof cases
    case 1
    have "take a ls @ ins @ drop a ls = (take a p @ ins @ drop a p) @ (h # body) @ r"
      using 1 by (simp add: ls)
    then show ?thesis by (simp only: sublist_appendI)
  next
    case 2
    define j where "j = a - (length p + length (h # body))"
    define q where "q = p @ h # body"
    have a: "a = length q + j" using 2 by (simp add: j_def q_def)
    have "ls = q @ r" by (simp add: ls q_def)
    then have "take a ls = q @ take j r" "drop a ls = drop j r" by (simp_all add: a)
    then have "take a ls @ ins @ drop a ls = p @ (h # body) @ (take j r @ ins @ drop j r)"
      by (simp add: q_def)
    then show ?thesis by (simp only: sublist_appendI)
  next
    case 3
    define i where "i = a - length p - 1"
    have i: "i < length body" "a = length p + Suc i" using 3 by (simp_all add: i_def)
    have "ls ! a = body ! i" unfolding ls i(2) using i(1) by (simp add: nth_append)
    then have "ls ! a \<in> set body" using i(1) by simp
    moreover have "a < length ls" using 3 by (simp add: ls)
    ultimately show ?thesis using assms(2,3) by auto
  qed
qed

text \<open>
  Claim C3, as amended. For every document and every two entries of the assignment loop
  (texts without line breaks) whose times normalize to the same minute of the day, where
  the first entry's time has the form \<open>H:MM\<close> or \<open>HH:MM\<close>: the second merge reports a
  conflict, and both merges insert their entry. Each merge puts the lines of its entry,
  as one block with blank lines and delimiters around it, at one place of the document
  it is given and changes nothing else; the block of the first entry still stands whole
  after the second merge, and so does every line of the original document, in the
  original order. The conflict blocks nothing and nothing that was there is removed or
  altered.
\<close>

theorem merge_same_time_conflict:
  assumes "plainEntry e1" and "plainEntry e2"
    and "matchTime (entryTime e1) \<noteq> None"
    and "parseTimeToMinutes (entryTime e1) = parseTimeToMinutes (entryTime e2)"
  shows "conflict (mergeEntry (newContent (mergeEntry content e1)) e2)
         \<and> (\<exists>a pre post.
               splitLines (newContent (mergeEntry content e1))
                 = take a (splitLines content) @ pre @ entryLines e1 @ post
                   @ drop a (splitLines content)
               \<and> set (pre @ post) \<subseteq> {[], ''---''})
         \<and> (\<exists>a pre post.
               splitLines (newContent (mergeEntry (newContent (mergeEntry content e1)) e2))
                 = take a (splitLines (newContent (mergeEntry content e1))) @ pre
                   @ entryLines e2 @ post
                   @ drop a (splitLines (newContent (mergeEntry content e1)))
               \<and> set (pre @ post) \<subseteq> {[], ''---''})
         \<and> sublist (entryLines e1)
              (splitLines (newContent (mergeEntry (newContent (mergeEntry content e1)) e2)))
         \<and> sublist (entryLines e2)
              (splitLines (newContent (mergeEntry (newContent (mergeEntry content e1)) e2)))
         \<and> subseq (splitLines content)
              (splitLines (newContent (mergeEntry (newContent (mergeEntry content e1)) e2)))"
proof -
  let ?c1 = "newContent (mergeEntry content e1)"
  let ?c2 = "newContent (mergeEntry ?c1 e2)"
  let ?l0 = "splitLines content" and ?l1 = "splitLines ?c1" and ?l2 = "splitLines ?c2"
  have m1: "?l1 = mergeLines ?l0 e1" by (rule mergeEntry_lines [OF assms(1)])
  have m2: "?l2 = mergeLines ?l1 e2" by (rule mergeEntry_lines [OF assms(2)])
  obtain a1 pre1 post1 where i1: "?l1 = take a1 ?l0 @ pre1 @ entryLines e1 @ post1 @ drop a1 ?l0"
    "set (pre1 @ post1) \<subseteq> {[], ''---''}"
    unfolding m1 using mergeLines_insertion [of ?l0 e1] by blast
  obtain a2 pre2 post2 where i2: "?l2 = take a2 ?l1 @ pre2 @ entryLines e2 @ post2 @ drop a2 ?l1"
    "set (pre2 @ post2) \<subseteq> {[], ''---''}"
    "length ?l1 \<le> a2 \<or> isEntryHeader (?l1 ! a2) \<or> isDivider (?l1 ! a2)"
    unfolding m2 using mergeLines_insertion [of "mergeLines ?l0 e1" e2] unfolding m1 by blast
  have "?l1 = (take a1 ?l0 @ pre1) @ entryLines e1 @ (post1 @ drop a1 ?l0)"
    using i1(1) by simp
  then have s1: "sublist (entryLines e1) ?l1" by (simp only: sublist_appendI)
  obtain body where b: "entryLines e1 = entryHeader e1 # body"
    "\<forall>l \<in> set body. \<not> isEntryHeader l \<and> \<not> isDivider l"
    using entryLines_shape [of e1] by blast
  have "sublist (entryHeader e1 # body)
          (take a2 ?l1 @ (pre2 @ entryLines e2 @ post2) @ drop a2 ?l1)"
    using s1 b(2) i2(3) unfolding b(1) by (rule block_survives)
  then have k1: "sublist (entryLines e1) ?l2" using i2(1) b(1) by simp
  have "?l2 = (take a2 ?l1 @ pre2) @ entryLines e2 @ (post2 @ drop a2 ?l1)"
    using i2(1) by simp
  then have k2: "sublist (entryLines e2) ?l2" by (simp only: sublist_appendI)
  have "entryHeader e1 \<in> set ?l1"
    using s1 entryHeader_in_entryLines [of e1] set_mono_sublist by blast
  moreover have "matchClassHeader (entryHeader e1) = Some (entryTime e1)"
    unfolding entryHeader_def by (rule matchClassHeader_classHeaderLine [OF assms(3)])
  ultimately have c: "conflict (mergeEntry ?c1 e2)"
    unfolding mergeEntry_conflict using assms(4) by (intro bexI [of _ "entryHeader e1"]) auto
  have k0: "subseq ?l0 ?l2"
    using mergeEntry_keeps_lines [OF assms(1), of content]
      mergeEntry_keeps_lines [OF assms(2), of ?c1] subseq_order.order_trans by blast
  show ?thesis
    using c i1 i2(1,2) k1 k2 k0 by (intro conjI) blast+
qed

section \<open>The order of the class headers\<close>

text \<open>
  On the documents the merge builds itself the class headers stay in time order: start
  from a well-shaped document whose class headers are in order and merge entries whose
  time texts have the form \<open>H:MM\<close> or \<open>HH:MM\<close>. The shape matters: it says that only
  blank lines stand between a delimiter and the next entry header, so that the search for
  a delimiter above the insertion point passes over no header.
\<close>

lemma headerMinutes_append: "headerMinutes (xs @ ys) = headerMinutes xs @ headerMinutes ys"
  by (simp add: headerMinutes_def List.map_filter_def)

lemma headerMinutes_Cons:
  "headerMinutes (l # ls) =
     (case matchClassHeader l of None \<Rightarrow> headerMinutes ls
      | Some t \<Rightarrow> parseTimeToMinutes t # headerMinutes ls)"
  by (simp add: headerMinutes_def List.map_filter_def split: option.split)

lemma headerMinutes_Nil [simp]: "headerMinutes [] = []"
  by (simp add: headerMinutes_def List.map_filter_def)

lemma headerMinutes_no_headers: "\<forall>l \<in> set ls. \<not> isEntryHeader l \<Longrightarrow> headerMinutes ls = []"
proof (induction ls)
  case Nil
  show ?case by simp
next
  case (Cons l ls)
  have "matchClassHeader l = None"
    using Cons.prems matchClassHeader_isEntryHeader [of l] by (cases "matchClassHeader l") auto
  with Cons show ?case by (simp add: headerMinutes_Cons)
qed

lemma headerMinutes_entryLines:
  assumes "matchTime (entryTime e) \<noteq> None"
  shows "headerMinutes (entryLines e) = [parseTimeToMinutes (entryTime e)]"
proof -
  obtain body where b: "entryLines e = entryHeader e # body"
    "\<forall>l \<in> set body. \<not> isEntryHeader l \<and> \<not> isDivider l"
    using entryLines_shape [of e] by blast
  have "matchClassHeader (entryHeader e) = Some (entryTime e)"
    unfolding entryHeader_def by (rule matchClassHeader_classHeaderLine [OF assms])
  moreover have "headerMinutes body = []" using b(2) by (intro headerMinutes_no_headers) simp
  ultimately show ?thesis by (simp add: b(1) headerMinutes_Cons)
qed

lemma find_append_cases:
  "find P (xs @ ys) = (case find P xs of None \<Rightarrow> find P ys | Some z \<Rightarrow> Some z)"
  by (induction xs) simp_all

lemma collectTimes_append:
  "fst (collectTimes new (xs @ ys) i)
     = fst (collectTimes new xs i) @ fst (collectTimes new ys (i + length xs))"
proof (induction xs arbitrary: i)
  case Nil
  show ?case by simp
next
  case (Cons l xs)
  show ?case
    using Cons.IH [of "Suc i"]
    by (cases "matchClassHeader l") (simp_all add: split_beta)
qed

lemma collectTimes_minutes:
  "map existingMinutes (fst (collectTimes new ls i)) = headerMinutes ls"
proof (induction ls arbitrary: i)
  case Nil
  show ?case by simp
next
  case (Cons l ls)
  show ?case
    using Cons.IH [of "Suc i"]
    by (cases "matchClassHeader l") (simp_all add: split_beta headerMinutes_Cons)
qed

text \<open>In a document whose class headers stand in order, the header found for the
  insertion is the first one, top to bottom, with a later time: the headers above it
  are not later than the new time, the headers from it on are later.\<close>

lemma insertion_point:
  assumes "sorted (headerMinutes ls)"
    and "find (\<lambda>x. new < existingMinutes x)
           (sort_key existingMinutes (fst (collectTimes new ls 0))) = Some x"
  shows "lineIndex x < length ls"
    and "\<forall>m \<in> set (headerMinutes (take (lineIndex x) ls)). m \<le> new"
    and "\<forall>m \<in> set (headerMinutes (drop (lineIndex x) ls)). new < m"
proof -
  let ?es = "fst (collectTimes new ls 0)"
  let ?k = "lineIndex x"
  let ?P = "\<lambda>x. new < existingMinutes x"
  have id: "sort_key existingMinutes ?es = ?es"
    using assms(1) by (intro sort_key_id_if_sorted) (simp add: collectTimes_minutes)
  have f: "find ?P ?es = Some x" using assms(2) unfolding id .
  then obtain i where "i < length ?es" "x = ?es ! i" "?P (?es ! i)"
    unfolding find_Some_iff by blast
  then have xin: "x \<in> set ?es" and px: "?P x" using nth_mem by auto
  from collectTimes_entries [OF xin]
  have k: "?k < length ls" "matchClassHeader (ls ! ?k) = Some (existingTime x)"
    "existingMinutes x = parseTimeToMinutes (existingTime x)"
    by simp_all
  show "?k < length ls" by (rule k(1))
  let ?A = "fst (collectTimes new (take ?k ls) 0)"
  let ?B = "fst (collectTimes new (drop ?k ls) ?k)"
  have "?es = fst (collectTimes new (take ?k ls @ drop ?k ls) 0)" by simp
  also have "\<dots> = ?A @ fst (collectTimes new (drop ?k ls) (0 + length (take ?k ls)))"
    by (rule collectTimes_append)
  also have "0 + length (take ?k ls) = ?k" using k(1) by simp
  finally have split: "?es = ?A @ ?B" .
  have A: "lineIndex a < ?k" if "a \<in> set ?A" for a
    using collectTimes_entries [OF that] k(1) by simp
  have "find ?P ?A = None"
  proof (cases "find ?P ?A")
    case None
    then show ?thesis .
  next
    case (Some z)
    then have "find ?P ?es = Some z" unfolding split by (simp add: find_append_cases)
    with f have "z = x" by simp
    moreover have "z \<in> set ?A" using Some unfolding find_Some_iff using nth_mem by blast
    ultimately show ?thesis using A by blast
  qed
  then have nA: "\<forall>a \<in> set ?A. \<not> ?P a" by (simp add: find_None_iff)
  have "map existingMinutes ?A = headerMinutes (take ?k ls)" by (rule collectTimes_minutes)
  then have "set (headerMinutes (take ?k ls)) = existingMinutes ` set ?A"
    by (metis set_map)
  with nA show "\<forall>m \<in> set (headerMinutes (take ?k ls)). m \<le> new" by auto
  have dr: "drop ?k ls = ls ! ?k # drop (Suc ?k) ls" using k(1) by (simp add: Cons_nth_drop_Suc)
  have hd: "headerMinutes (drop ?k ls) = existingMinutes x # headerMinutes (drop (Suc ?k) ls)"
    unfolding dr by (simp add: headerMinutes_Cons k(2) k(3))
  have "headerMinutes ls = headerMinutes (take ?k ls @ drop ?k ls)" by simp
  also have "\<dots> = headerMinutes (take ?k ls) @ headerMinutes (drop ?k ls)"
    by (rule headerMinutes_append)
  finally have "sorted (headerMinutes (take ?k ls) @ headerMinutes (drop ?k ls))"
    using assms(1) by simp
  then have "sorted (headerMinutes (drop ?k ls))" by (simp add: sorted_append)
  then have "\<forall>m \<in> set (headerMinutes (drop ?k ls)). existingMinutes x \<le> m"
    unfolding hd by auto
  with px show "\<forall>m \<in> set (headerMinutes (drop ?k ls)). new < m" by auto
qed

lemma sorted_insertion:
  assumes "sorted (xs @ ys)" and "\<forall>m \<in> set xs. m \<le> (v::int)" and "\<forall>m \<in> set ys. v < m"
  shows "sorted (xs @ [v] @ ys)"
  using assms by (auto simp: sorted_append)

text \<open>In a well-shaped document only blank lines stand between a delimiter and the
  next entry header.\<close>

lemma scanFrom_in_entry_stays:
  "\<forall>l \<in> set m. \<not> isDivider l \<Longrightarrow> s = InEntry \<or> s = Broken \<Longrightarrow>
     scanFrom s m = InEntry \<or> scanFrom s m = Broken"
proof (induction m arbitrary: s)
  case Nil
  then show ?case by simp
next
  case (Cons l m)
  have "scanStep s l = InEntry \<or> scanStep s l = Broken" using Cons.prems by auto
  with Cons show ?case by simp
qed

lemma scanFrom_gap:
  assumes "\<forall>l \<in> set m. \<not> isDivider l"
    and "s = BeforeEntries \<or> s = AfterDivider"
    and "scanFrom s m = BeforeEntries \<or> scanFrom s m = AfterDivider"
  shows "\<forall>l \<in> set m. \<not> isEntryHeader l"
  using assms
proof (induction m arbitrary: s)
  case Nil
  show ?case by simp
next
  case (Cons l m)
  have nd: "\<forall>l \<in> set m. \<not> isDivider l" using Cons.prems(1) by simp
  have acc: "scanFrom (scanStep s l) m = BeforeEntries \<or> scanFrom (scanStep s l) m = AfterDivider"
    using Cons.prems(3) by simp
  have nh: "\<not> isEntryHeader l"
  proof
    assume "isEntryHeader l"
    then have "scanStep s l = InEntry" using Cons.prems(2) by (simp add: scanStep_header)
    with scanFrom_in_entry_stays [OF nd, of InEntry] acc show False by auto
  qed
  have "scanStep s l \<noteq> Broken" using acc by auto
  then have "scanStep s l = BeforeEntries \<or> scanStep s l = AfterDivider"
    using nh Cons.prems(2) by (auto split: if_splits)
  from Cons.IH [OF nd this acc] nh show ?case by simp
qed

lemma wellShaped_gap:
  assumes "wellShaped ls" and "k < length ls" and "isEntryHeader (ls ! k)"
    and "take k ls = p @ [d] @ m" and "isDivider d"
    and "\<forall>l \<in> set m. \<not> isDivider l"
  shows "\<forall>l \<in> set m. \<not> isEntryHeader l"
proof -
  let ?h = "ls ! k" and ?R = "drop (Suc k) ls"
  have ls: "ls = p @ [d] @ m @ ?h # ?R"
    using assms(4) assms(2) by (metis append_assoc append_take_drop_id Cons_nth_drop_Suc)
  define s1 where "s1 = scanStep (scanFrom BeforeEntries p) d"
  define t where "t = scanFrom s1 m"
  have old: "scanFrom BeforeEntries ls = scanFrom (scanStep t ?h) ?R"
    by (subst ls) (simp add: s1_def t_def)
  have acc: "scanFrom BeforeEntries ls = BeforeEntries \<or> scanFrom BeforeEntries ls = AfterDivider"
    using assms(1) by (simp add: wellShaped_def)
  then have "scanStep t ?h \<noteq> Broken" unfolding old by auto
  then have t: "t = BeforeEntries \<or> t = AfterDivider"
    using assms(3) by (cases t) (auto simp: scanStep_header)
  then have "s1 \<noteq> Broken" unfolding t_def by auto
  moreover have "s1 \<noteq> InEntry"
    unfolding s1_def using assms(5) header_not_divider [of d]
    by (cases "scanFrom BeforeEntries p") (auto simp: scanStep_divider)
  ultimately have "s1 = BeforeEntries \<or> s1 = AfterDivider" by (cases s1) auto
  from scanFrom_gap [OF assms(6) this] t show ?thesis by (simp add: t_def)
qed

lemma mergeLines_keeps_order:
  assumes "wellShaped ls" and "sorted (headerMinutes ls)"
    and "matchTime (entryTime e) \<noteq> None"
  shows "sorted (headerMinutes (mergeLines ls e))"
proof -
  let ?new = "parseTimeToMinutes (entryTime e)"
  let ?es = "fst (collectTimes ?new ls 0)"
  note he = headerMinutes_entryLines [OF assms(3)]
  have blank: "headerMinutes [[]] = []" "headerMinutes [[], []] = []"
    "headerMinutes [[], ''---''] = []" "headerMinutes [''---'', []] = []"
    "headerMinutes [[], ''---'', [], [], []] = []"
    by (simp_all add: headerMinutes_no_headers)
  show ?thesis
  proof (cases "find (\<lambda>x. ?new < existingMinutes x) (sort_key existingMinutes ?es)")
    case None
    have id: "sort_key existingMinutes ?es = ?es"
      using assms(2) by (intro sort_key_id_if_sorted) (simp add: collectTimes_minutes)
    from None have "\<forall>x \<in> set ?es. \<not> ?new < existingMinutes x"
      unfolding id by (simp add: find_None_iff)
    moreover have "set (headerMinutes ls) = existingMinutes ` set ?es"
      using collectTimes_minutes [of ?new ls 0] by (metis set_map)
    ultimately have le: "\<forall>m \<in> set (headerMinutes ls). m \<le> ?new" by auto
    have "mergeLines ls e = ls @ [[], []] @ entryLines e @ [[], ''---'', [], [], []]"
      using None by (simp add: mergeLines_def)
    then have "headerMinutes (mergeLines ls e) = headerMinutes ls @ [?new]"
      by (simp only: headerMinutes_append he blank append_Nil append_Nil2)
    then show ?thesis using assms(2) le by (simp add: sorted_append)
  next
    case (Some x)
    note ip = insertion_point [OF assms(2) Some]
    let ?k = "lineIndex x"
    have "x \<in> set (sort_key existingMinutes ?es)"
      using Some unfolding find_Some_iff using nth_mem by blast
    then have "x \<in> set ?es" by simp
    from collectTimes_entries [OF this]
    have hk: "isEntryHeader (ls ! ?k)" using matchClassHeader_isEntryHeader by simp
    have parts: "sorted (headerMinutes (take ?k ls) @ headerMinutes (drop ?k ls))"
      using assms(2) headerMinutes_append [of "take ?k ls" "drop ?k ls"] by simp
    have goal: "sorted (headerMinutes (take ?k ls) @ [?new] @ headerMinutes (drop ?k ls))"
      using parts ip(2) ip(3) by (rule sorted_insertion)
    show ?thesis
    proof (cases "findDividerAbove ls ?k")
      case None
      have "mergeLines ls e = take ?k ls @ entryLines e @ [[], ''---''] @ drop ?k ls"
        using Some None by (simp add: mergeLines_def)
      then have "headerMinutes (mergeLines ls e)
                 = headerMinutes (take ?k ls) @ [?new] @ headerMinutes (drop ?k ls)"
        by (simp only: headerMinutes_append he blank append_Nil append_Nil2)
      then show ?thesis using goal by simp
    next
      case (Some a)
      from findDividerAbove_Some [OF Some] ip(1)
      obtain m where m: "a < ?k" "isDivider (ls ! a)" "take ?k ls = take a ls @ [ls ! a] @ m"
        "\<forall>l \<in> set m. \<not> isDivider l \<and> (isBlank l \<or> isEntryHeader l)" by auto
      have md: "\<forall>l \<in> set m. \<not> isDivider l" using m(4) by simp
      have nh: "\<forall>l \<in> set m. \<not> isEntryHeader l"
        by (rule wellShaped_gap [OF assms(1) ip(1) hk m(3) m(2) md])
      have nd: "\<not> isEntryHeader (ls ! a)" using m(2) header_not_divider by blast
      have gap: "headerMinutes ([ls ! a] @ m) = []"
        using nh nd by (intro headerMinutes_no_headers) simp
      have tk: "headerMinutes (take ?k ls) = headerMinutes (take a ls)"
      proof -
        have "headerMinutes (take ?k ls) = headerMinutes (take a ls @ ([ls ! a] @ m))"
          using m(3) by simp
        also have "\<dots> = headerMinutes (take a ls) @ headerMinutes ([ls ! a] @ m)"
          by (rule headerMinutes_append)
        finally show ?thesis unfolding gap by simp
      qed
      have "take a ls @ drop a ls = take ?k ls @ drop ?k ls" by simp
      then have "take a ls @ drop a ls = take a ls @ ([ls ! a] @ m @ drop ?k ls)"
        unfolding m(3) by simp
      then have dr: "drop a ls = [ls ! a] @ m @ drop ?k ls" by (simp only: same_append_eq)
      have da: "headerMinutes (drop a ls) = headerMinutes (drop ?k ls)"
      proof -
        have "headerMinutes (drop a ls) = headerMinutes (([ls ! a] @ m) @ drop ?k ls)"
          using dr by simp
        also have "\<dots> = headerMinutes ([ls ! a] @ m) @ headerMinutes (drop ?k ls)"
          by (rule headerMinutes_append)
        finally show ?thesis unfolding gap by simp
      qed
      have "mergeLines ls e = take a ls @ [''---'', []] @ entryLines e @ [[]] @ drop a ls"
        using \<open>find _ _ = Some x\<close> Some by (simp add: mergeLines_def)
      then have "headerMinutes (mergeLines ls e)
                 = headerMinutes (take a ls) @ [?new] @ headerMinutes (drop a ls)"
        by (simp only: headerMinutes_append he blank append_Nil append_Nil2)
      then show ?thesis using goal unfolding tk da by simp
    qed
  qed
qed

lemma mergeAll_order_invariant:
  assumes "\<forall>e \<in> set es. plainEntry e \<and> matchTime (entryTime e) \<noteq> None"
    and "wellShaped (splitLines content)" and "sorted (headerMinutes (splitLines content))"
  shows "wellShaped (splitLines (mergeAll content es))
         \<and> sorted (headerMinutes (splitLines (mergeAll content es)))"
  using assms
proof (induction es arbitrary: content)
  case Nil
  then show ?case by (simp add: mergeAll_def)
next
  case (Cons e es)
  have p: "plainEntry e" and t: "matchTime (entryTime e) \<noteq> None" using Cons.prems(1) by simp_all
  let ?c = "newContent (mergeEntry content e)"
  have l: "splitLines ?c = mergeLines (splitLines content) e" by (rule mergeEntry_lines [OF p])
  have w: "wellShaped (splitLines ?c)"
    unfolding l using Cons.prems(2) by (rule mergeLines_wellShaped)
  have s: "sorted (headerMinutes (splitLines ?c))"
    unfolding l using Cons.prems(2) Cons.prems(3) t by (rule mergeLines_keeps_order)
  have r: "\<forall>e \<in> set es. plainEntry e \<and> matchTime (entryTime e) \<noteq> None"
    using Cons.prems(1) by simp
  from Cons.IH [OF r w s] show ?case unfolding mergeAll_Cons .
qed

lemma mergeAll_keeps_order:
  assumes "\<forall>e \<in> set es. plainEntry e \<and> matchTime (entryTime e) \<noteq> None"
    and "\<forall>l \<in> set (splitLines content). \<not> isEntryHeader l"
  shows "sorted (headerMinutes (splitLines (mergeAll content es)))"
proof -
  have w0: "wellShaped (splitLines content)"
    using scanFrom_no_headers [OF assms(2)] by (simp add: wellShaped_def)
  have s0: "sorted (headerMinutes (splitLines content))"
    using headerMinutes_no_headers [OF assms(2)] by simp
  from mergeAll_order_invariant [OF assms(1) w0 s0] show ?thesis by simp
qed

section \<open>Concrete runs\<close>

lemma showNat_small: "showNat 1 = ''1''" "showNat 3 = ''3''"
  by code_simp+

lemmas evalLines =
  mergeLines_def matchClassHeader_def isDigit_def parseTimeToMinutes_def parseInt_def
  digitValue_def trim_plain whiteSpace_bytes nl_def cr_def entryLines_def entryHeader_def
  classHeaderLine_def planEntry_def transclusionRef_def showNat_small headerMinutes_def
  List.map_filter_def

lemma emptyPlan_lines:
  "splitLines emptyPlan =
     [''---'', ''date: 2025-01-07'',
      ''day_of_week: '' @ [CHR 0x22] @ ''Tuesday'' @ [CHR 0x22],
      ''classes: []'', ''---'', [], ''# Tuesday, January 7, 2025'']"
  unfolding emptyPlan_def by (rule splitLines_joinLines) (simp_all add: nl_def)

lemma handEditedPlan_lines:
  "splitLines handEditedPlan =
     [''---'', ''date: 2025-01-07'', ''---'', [],
      ''## 8:00 - Math'', [], ''Fractions, day 2'', [], ''---'', [],
      ''## 9:00 - Art'', [],
      ''## 11:00 - Music'', [], ''Rhythm, day 1'', [], ''---'']"
  unfolding handEditedPlan_def by (rule splitLines_joinLines) (simp_all add: nl_def)

lemma plainEntry_planEntry:
  "noBreaks t \<Longrightarrow> noBreaks c \<Longrightarrow> noBreaks u \<Longrightarrow> plainEntry (planEntry t c u)"
  by (simp add: plainEntry_def planEntry_def)

lemma noBreaks_samples:
  "noBreaks ''10:00''" "noBreaks ''9:00''" "noBreaks ''09:00''" "noBreaks ''9:30''"
  "noBreaks ''TBD''"
  "noBreaks ''Gym''" "noBreaks ''Art''" "noBreaks ''Music''"
  "noBreaks ''Ball games''" "noBreaks ''Clay''" "noBreaks ''Rhythm''"
  by (rule noBreaks_bytes; simp add: nl_def cr_def)+

lemmas plainSamples =
  plainEntry_planEntry [OF noBreaks_samples(1) noBreaks_samples(6) noBreaks_samples(9)]
  plainEntry_planEntry [OF noBreaks_samples(2) noBreaks_samples(7) noBreaks_samples(10)]
  plainEntry_planEntry [OF noBreaks_samples(3) noBreaks_samples(8) noBreaks_samples(11)]
  plainEntry_planEntry [OF noBreaks_samples(4) noBreaks_samples(8) noBreaks_samples(11)]
  plainEntry_planEntry [OF noBreaks_samples(5) noBreaks_samples(7) noBreaks_samples(10)]
  plainEntry_planEntry [OF noBreaks_samples(5) noBreaks_samples(8) noBreaks_samples(11)]

text \<open>
  Claim C1 fails on the hand-edited plan: its class headers stand in the order 8:00,
  9:00, 11:00. Merging Gym at 10:00 finds the insertion point at the header of Music;
  the search for a delimiter above it passes over the bare header of Art and stops at the
  delimiter that closes Math, and the new entry goes above that delimiter: the headers
  then read 8:00, 10:00, 9:00, 11:00. The plan is not well-shaped (the entry of Art has
  no delimiter of its own); on well-shaped documents the order is kept, see
  \<open>mergeLines_keeps_order\<close>.
\<close>

theorem insertClassByTimeFixed_breaks_order:
  "headerMinutes (splitLines handEditedPlan) = [480, 540, 660]
   \<and> headerMinutes (splitLines (newContent
        (insertClassByTimeFixed handEditedPlan
           (classEntryText ''10:00'' ''Gym'' [] ''Ball games'' 1 3) ''10:00'' ''Gym'')))
      = [480, 600, 540, 660]"
proof -
  have e: "insertClassByTimeFixed handEditedPlan
             (classEntryText ''10:00'' ''Gym'' [] ''Ball games'' 1 3) ''10:00'' ''Gym''
           = mergeEntry handEditedPlan (planEntry ''10:00'' ''Gym'' ''Ball games'')"
    by (simp add: mergeEntry_def entryText_def planEntry_def)
  have "headerMinutes (splitLines handEditedPlan) = [480, 540, 660]"
    unfolding handEditedPlan_lines by (simp add: evalLines)
  moreover have "headerMinutes (splitLines (newContent
        (mergeEntry handEditedPlan (planEntry ''10:00'' ''Gym'' ''Ball games''))))
      = [480, 600, 540, 660]"
    unfolding mergeEntry_lines [OF plainSamples(1)] handEditedPlan_lines
    by (simp add: evalLines)
  ultimately show ?thesis unfolding e by simp
qed

text \<open>
  The form of the time texts matters as well. A class whose time is written as a range,
  "9:00 - 9:45", is placed by the minutes of the whole text, which normalize to 0, while
  its header reads as 9:00 to every later scan: merged after a class at 8:00 it is put
  above that class.
\<close>

lemma rangeSamples:
  "plainEntry (planEntry ''8:00'' ''Math'' ''Fractions'')"
  "plainEntry (planEntry ''9:00 - 9:45'' ''Art'' ''Clay'')"
  by (rule plainEntry_planEntry; rule noBreaks_bytes; simp add: nl_def cr_def)+

lemma mergeAll_time_range_breaks_order:
  "headerMinutes (splitLines (mergeAll emptyPlan
      [planEntry ''8:00'' ''Math'' ''Fractions'', planEntry ''9:00 - 9:45'' ''Art'' ''Clay'']))
   = [540, 480]"
  unfolding mergeAll_def foldl.simps mergeEntry_lines [OF rangeSamples(2)]
    mergeEntry_lines [OF rangeSamples(1)] emptyPlan_lines
  by (simp add: evalLines)

theorem merge_same_time_conflict_witness:
  "plainEntry (planEntry ''9:00'' ''Art'' ''Clay'')
   \<and> plainEntry (planEntry ''09:00'' ''Music'' ''Rhythm'')
   \<and> matchTime (entryTime (planEntry ''9:00'' ''Art'' ''Clay'')) \<noteq> None
   \<and> parseTimeToMinutes (entryTime (planEntry ''9:00'' ''Art'' ''Clay''))
       = parseTimeToMinutes (entryTime (planEntry ''09:00'' ''Music'' ''Rhythm''))
   \<and> conflict (mergeEntry (newContent (mergeEntry emptyPlan (planEntry ''9:00'' ''Art'' ''Clay'')))
        (planEntry ''09:00'' ''Music'' ''Rhythm''))
   \<and> sublist (entryLines (planEntry ''9:00'' ''Art'' ''Clay''))
        (splitLines (newContent
           (mergeEntry (newContent (mergeEntry emptyPlan (planEntry ''9:00'' ''Art'' ''Clay'')))
              (planEntry ''09:00'' ''Music'' ''Rhythm''))))
   \<and> sublist (entryLines (planEntry ''09:00'' ''Music'' ''Rhythm''))
        (splitLines (newContent
           (mergeEntry (newContent (mergeEntry emptyPlan (planEntry ''9:00'' ''Art'' ''Clay'')))
              (planEntry ''09:00'' ''Music'' ''Rhythm''))))
   \<and> subseq (splitLines emptyPlan)
        (splitLines (newContent
           (mergeEntry (newContent (mergeEntry emptyPlan (planEntry ''9:00'' ''Art'' ''Clay'')))
              (planEntry ''09:00'' ''Music'' ''Rhythm''))))"
proof -
  have h3: "matchTime (entryTime (planEntry ''9:00'' ''Art'' ''Clay'')) \<noteq> None"
    by (simp add: planEntry_def isDigit_def)
  have h4: "parseTimeToMinutes (entryTime (planEntry ''9:00'' ''Art'' ''Clay''))
       = parseTimeToMinutes (entryTime (planEntry ''09:00'' ''Music'' ''Rhythm''))"
    by (simp add: planEntry_def parseTimeToMinutes_def isDigit_def parseInt_def digitValue_def)
  from merge_same_time_conflict [OF plainSamples(2) plainSamples(3) h3 h4, of emptyPlan]
    plainSamples(2) plainSamples(3) h3 h4
  show ?thesis by blast
qed

text \<open>
  The claim as stated fails for time texts that are not of the form \<open>H:MM\<close>: two
  classes without a configured time both carry the placeholder "TBD", which normalizes
  to minute 0 for both; their headers are no class headers for the scan, and the second
  merge reports no conflict.
\<close>

theorem merge_placeholder_time_counterexample:
  "parseTimeToMinutes ''TBD'' = 0
   \<and> ''Art'' \<noteq> ''Music''
   \<and> \<not> conflict
        (insertClassByTimeFixed
           (newContent (insertClassByTimeFixed emptyPlan
              (classEntryText ''TBD'' ''Art'' [] ''Clay'' 1 3) ''TBD'' ''Art''))
           (classEntryText ''TBD'' ''Music'' [] ''Rhythm'' 1 3) ''TBD'' ''Music'')"
proof -
  have e1: "insertClassByTimeFixed emptyPlan (classEntryText ''TBD'' ''Art'' [] ''Clay'' 1 3)
              ''TBD'' ''Art'' = mergeEntry emptyPlan (planEntry ''TBD'' ''Art'' ''Clay'')"
    by (simp add: mergeEntry_def entryText_def planEntry_def)
  have e2: "insertClassByTimeFixed c (classEntryText ''TBD'' ''Music'' [] ''Rhythm'' 1 3)
              ''TBD'' ''Music'' = mergeEntry c (planEntry ''TBD'' ''Music'' ''Rhythm'')" for c
    by (simp add: mergeEntry_def entryText_def planEntry_def)
  have "\<not> conflict (mergeEntry (newContent (mergeEntry emptyPlan (planEntry ''TBD'' ''Art'' ''Clay'')))
          (planEntry ''TBD'' ''Music'' ''Rhythm''))"
    unfolding mergeEntry_conflict mergeEntry_lines [OF plainSamples(5)] emptyPlan_lines
    by (simp add: evalLines)
  moreover have "parseTimeToMinutes ''TBD'' = 0" by (simp add: parseTimeToMinutes_def)
  ultimately show ?thesis unfolding e1 e2 by simp
qed

theorem mergeAll_divider_discipline_witness:
  "plainEntry (planEntry ''10:00'' ''Gym'' ''Ball games'')
   \<and> plainEntry (planEntry ''9:00'' ''Art'' ''Clay'')
   \<and> plainEntry (planEntry ''9:30'' ''Music'' ''Rhythm'')
   \<and> filter isEntryHeader (splitLines emptyPlan) = []
   \<and> dividerCounts (splitLines (mergeAll emptyPlan
        [planEntry ''10:00'' ''Gym'' ''Ball games'', planEntry ''9:00'' ''Art'' ''Clay'',
         planEntry ''9:30'' ''Music'' ''Rhythm''])) = [1, 1, 1]"
proof -
  have h1: "\<forall>e \<in> set [planEntry ''10:00'' ''Gym'' ''Ball games'', planEntry ''9:00'' ''Art'' ''Clay'',
                 planEntry ''9:30'' ''Music'' ''Rhythm'']. plainEntry e"
    using plainSamples(1) plainSamples(2) plainSamples(4) by simp
  have h2: "\<forall>l \<in> set (splitLines emptyPlan). \<not> isEntryHeader l"
    unfolding emptyPlan_lines by (simp add: isEntryHeader_def)
  from mergeAll_divider_discipline [OF h1 h2] h1 h2
  show ?thesis by (simp add: numeral_3_eq_3 filter_empty_conv)
qed

text \<open>
  A line of three dashes and a no-break space is a delimiter for the merge, since
  \<open>trim()\<close> takes the no-break space off. Merged into a plan that ends with such a line,
  the entry of Art is appended; the entry of Gym, which is earlier, is put above that
  line with a new delimiter in front of it, so that each of the two entries is followed
  by one delimiter.
\<close>

lemma nbspPlan_lines: "splitLines nbspPlan = [''# Plan'', ''---'' @ [CHR 0xC2, CHR 0xA0]]"
  unfolding nbspPlan_def by (rule splitLines_joinLines) (simp_all add: nl_def)

lemma trim_nbsp: "trim (''---'' @ [CHR 0xC2, CHR 0xA0]) = ''---''"
  by code_simp

lemma plainEntry_Gym: "plainEntry (planEntry ''8:00'' ''Gym'' ''Ball games'')"
  by (rule plainEntry_planEntry; rule noBreaks_bytes; simp add: nl_def cr_def)+

lemma merge_reuses_trimmed_delimiter:
  "splitLines (mergeAll nbspPlan
      [planEntry ''9:00'' ''Art'' ''Clay'', planEntry ''8:00'' ''Gym'' ''Ball games''])
   = [''# Plan'', ''---'', []] @ entryLines (planEntry ''8:00'' ''Gym'' ''Ball games'')
     @ [[], ''---'' @ [CHR 0xC2, CHR 0xA0], [], []]
     @ entryLines (planEntry ''9:00'' ''Art'' ''Clay'') @ [[], ''---'', [], [], []]"
  "isDivider (''---'' @ [CHR 0xC2, CHR 0xA0])"
proof -
  show "splitLines (mergeAll nbspPlan
      [planEntry ''9:00'' ''Art'' ''Clay'', planEntry ''8:00'' ''Gym'' ''Ball games''])
   = [''# Plan'', ''---'', []] @ entryLines (planEntry ''8:00'' ''Gym'' ''Ball games'')
     @ [[], ''---'' @ [CHR 0xC2, CHR 0xA0], [], []]
     @ entryLines (planEntry ''9:00'' ''Art'' ''Clay'') @ [[], ''---'', [], [], []]"
    unfolding mergeAll_def foldl.simps mergeEntry_lines [OF plainEntry_Gym]
      mergeEntry_lines [OF plainSamples(2)] nbspPlan_lines
    using trim_nbsp by (simp add: evalLines)
  show "isDivider (''---'' @ [CHR 0xC2, CHR 0xA0])"
    unfolding isDivider_def by (rule trim_nbsp)
qed

section \<open>Properties of \<open>createDailyPlanEntry\<close> and of the assignment loop\<close>

lemma classRegexTest_needs_hash: "classRegexTest className text \<Longrightarrow> CHR ''#'' \<in> set text"
proof -
  assume "classRegexTest className text"
  then obtain i where "take 3 (drop i text) = ''## ''"
    by (auto simp: classRegexTest_def)
  then have "CHR ''#'' \<in> set (take 3 (drop i text))" by simp
  then show ?thesis by (meson in_set_takeD in_set_dropD)
qed

lemma classRegexTest_null: "\<not> classRegexTest className ''null''"
  using classRegexTest_needs_hash [of className "''null''"] by auto

lemma classRegexTest_intro:
  assumes "nl \<notin> set b"
  shows "classRegexTest className (a @ ''## '' @ b @ className @ r)"
proof -
  let ?t = "a @ ''## '' @ b @ className @ r"
  let ?i = "length a" and ?j = "length a + 3 + length b"
  have 1: "take 3 (drop ?i ?t) = ''## ''" by simp
  have 2: "take (?j - (?i + 3)) (drop (?i + 3) ?t) = b" by simp
  have "?t = (a @ ''## '' @ b) @ (className @ r)" by simp
  then have 3: "drop ?j ?t = className @ r"
    by (simp only: drop_append) simp
  have "?i \<in> {0..length ?t}" by simp
  moreover have "?j \<in> {?i + 3..length ?t}" by simp
  moreover have "take 3 (drop ?i ?t) = ''## ''
      \<and> nl \<notin> set (take (?j - (?i + 3)) (drop (?i + 3) ?t))
      \<and> length className \<le> length ?t - ?j
      \<and> take (length className) (drop ?j ?t) = className"
    unfolding 2 3 using 1 assms by simp
  ultimately show ?thesis unfolding classRegexTest_def by blast
qed

text \<open>Without a stored plan (and nothing cached) the method fails and stores nothing.\<close>

lemma createDailyPlanEntry_without_file:
  assumes "vault fs (getFullPath fs (''Daily Plans/'' @ date @ ''.md'')) = None"
    and "cache fs (getFullPath fs (''Daily Plans/'' @ date @ ''.md'')) = None"
    and "normalizePath fs (getFullPath fs (''Daily Plans/'' @ date @ ''.md''))
           = getFullPath fs (''Daily Plans/'' @ date @ ''.md'')"
  shows "createDailyPlanEntry locale fs date className unitName dayNumber totalDays ctx
         = (\<lparr>success = False, skipped = None, hasScheduleWarning = Some False\<rparr>, fs)"
proof -
  have r: "readFile fs (getFullPath fs (''Daily Plans/'' @ date @ ''.md'')) = (None, fs)"
    using assms by (simp add: readFile_def)
  show ?thesis
    unfolding createDailyPlanEntry_def Let_def promiseTruthy_def if_True r
    by (simp add: classRegexTest_null split: prod.splits)
qed

text \<open>A skipped entry is reported as a success as well.\<close>

lemma createDailyPlanEntry_skipped_is_success:
  "given (skipped (fst (createDailyPlanEntry locale fs date className unitName dayNumber
       totalDays ctx))) \<Longrightarrow>
   success (fst (createDailyPlanEntry locale fs date className unitName dayNumber totalDays ctx))"
  by (auto simp: createDailyPlanEntry_def Let_def given_def split: prod.splits option.splits if_splits)

lemma createEntries_skipped_within_created:
  "skippedPlans (fst (createEntries locale fs dates i className unitName duration ctx tally))
     - skippedPlans tally
   \<le> createdPlans (fst (createEntries locale fs dates i className unitName duration ctx tally))
     - createdPlans tally
   \<and> skippedPlans tally
       \<le> skippedPlans (fst (createEntries locale fs dates i className unitName duration ctx tally))
   \<and> createdPlans tally
       \<le> createdPlans (fst (createEntries locale fs dates i className unitName duration ctx tally))"
proof (induction dates arbitrary: fs i tally)
  case Nil
  show ?case by simp
next
  case (Cons date dates)
  obtain result fs' where c: "createDailyPlanEntry locale fs date className unitName (Suc i)
      duration ctx = (result, fs')"
    by (cases "createDailyPlanEntry locale fs date className unitName (Suc i) duration ctx")
  have s: "given (skipped result) \<Longrightarrow> success result"
    using createDailyPlanEntry_skipped_is_success [of "locale" fs date className unitName "Suc i" duration ctx]
    by (simp add: c)
  let ?t = "\<lparr>createdPlans = (if success result then createdPlans tally + 1 else createdPlans tally),
             skippedPlans = (if given (skipped result) then skippedPlans tally + 1
                             else skippedPlans tally),
             scheduleWarnings = (if given (hasScheduleWarning result)
                                 then scheduleWarnings tally + 1
                                 else scheduleWarnings tally)\<rparr>"
  note ih = Cons.IH [of fs' "Suc i" ?t]
  have e: "createEntries locale fs (date # dates) i className unitName duration ctx tally
           = createEntries locale fs' dates (Suc i) className unitName duration ctx ?t"
    by (simp add: c)
  show ?case unfolding e using ih s by (auto split: if_splits)
qed

lemma emptyVault_path:
  "getFullPath emptyVault (''Daily Plans/'' @ ''2025-01-07'' @ ''.md'')
     = ''20 Lesson Planning/Daily Plans/2025-01-07.md''"
  by (simp add: getFullPath_def emptyVault_def)

lemma vaultWithArt_path:
  "getFullPath vaultWithArt (''Daily Plans/'' @ ''2025-01-07'' @ ''.md'')
     = ''20 Lesson Planning/Daily Plans/2025-01-07.md''"
  by (simp add: getFullPath_def vaultWithArt_def emptyVault_def)

lemma planWithArt_duplicate: "classRegexTest ''Art'' planWithArt"
proof -
  define a where "a = joinLines
       [''---'', ''date: 2025-01-07'',
        ''day_of_week: '' @ quoted ''Tuesday'',
        ''classes: ['' @ quoted ''Art'' @ '']'', ''---'', [],
        ''# Tuesday, January 7, 2025''] @ [nl, nl, nl]"
  define r where "r = [nl, nl]
     @ ''**Unit:** [['' @ ''Clay'' @ '']]  '' @ [nl]
     @ ''**Day:** '' @ showNat 1 @ '' of '' @ showNat 3 @ ''  '' @ [nl]
     @ ''**Lesson:** Day '' @ showNat 1 @ [nl, nl]
     @ ''### Quick Reference'' @ [nl, nl]
     @ transclusionRef ''Clay'' 1 @ [nl, nl]
     @ ''---'' @ [nl, nl] @ [nl]"
  have "planWithArt = a @ ''## '' @ ''9:00 - '' @ ''Art'' @ r"
    by (simp add: planWithArt_def classEntryText_def classHeaderLine_def a_def r_def)
  moreover have "nl \<notin> set ''9:00 - ''" by (simp add: nl_def)
  ultimately show ?thesis using classRegexTest_intro [of "''9:00 - ''" "''Art''" a r] by simp
qed

text \<open>
  Claim C2 fails where no plan is stored for the date. The condition on \<open>fileExists\<close>
  tests the promise, so the method reads the missing file, gets \<open>null\<close> and fails in
  \<open>insertClassByTimeFixed\<close>; the skeleton of a new plan is never written. The first call
  answers \<open>success = false\<close> and stores nothing, and so does the second call: it does
  not answer \<open>skipped = true\<close>.
\<close>

theorem createDailyPlanEntry_twice_without_plan:
  "createDailyPlanEntry sampleLocale emptyVault ''2025-01-07'' ''Art'' ''Clay'' 1 3 artContext
     = (\<lparr>success = False, skipped = None, hasScheduleWarning = Some False\<rparr>, emptyVault)
   \<and> createDailyPlanEntry sampleLocale
       (snd (createDailyPlanEntry sampleLocale emptyVault ''2025-01-07'' ''Art'' ''Clay'' 1 3
               artContext))
       ''2025-01-07'' ''Art'' ''Clay'' 1 3 artContext
     = (\<lparr>success = False, skipped = None, hasScheduleWarning = Some False\<rparr>, emptyVault)
   \<and> vault emptyVault = Map.empty"
proof -
  have 1: "createDailyPlanEntry sampleLocale emptyVault ''2025-01-07'' ''Art'' ''Clay'' 1 3
             artContext
           = (\<lparr>success = False, skipped = None, hasScheduleWarning = Some False\<rparr>, emptyVault)"
    by (rule createDailyPlanEntry_without_file)
      (simp_all add: emptyVault_path, simp_all add: emptyVault_def)
  show ?thesis unfolding 1 using 1 by (simp add: emptyVault_def)
qed

text \<open>
  Where the plan of the date is stored already, the two calls do what the claim says: on
  a vault that holds the skeleton of the plan, the first call merges the entry and writes
  the plan, and the second call answers \<open>skipped = true\<close> and leaves the vault and the
  cache as they were.
\<close>

lemma classRegexTest_two_hashes:
  assumes "classRegexTest className text"
  shows "2 \<le> length (filter (\<lambda>c. c = CHR ''#'') text)"
proof -
  from assms obtain i where i: "take 3 (drop i text) = ''## ''"
    by (auto simp: classRegexTest_def)
  have "drop i text = take 3 (drop i text) @ drop 3 (drop i text)"
    by (rule append_take_drop_id [symmetric])
  then have "drop i text = ''## '' @ drop 3 (drop i text)" unfolding i .
  then have "text = take i text @ ''## '' @ drop 3 (drop i text)"
    by (metis append_take_drop_id)
  then have "filter (\<lambda>c. c = CHR ''#'') text
      = filter (\<lambda>c. c = CHR ''#'') (take i text @ ''## '' @ drop 3 (drop i text))" by simp
  then show ?thesis by (simp del: append_take_drop_id)
qed

lemma emptyPlan_no_duplicate: "\<not> classRegexTest className emptyPlan"
proof -
  have "length (filter (\<lambda>c. c = CHR ''#'') emptyPlan) = 1"
    by (simp add: emptyPlan_def nl_def)
  then show ?thesis using classRegexTest_two_hashes [of className emptyPlan] by auto
qed

lemma insert_Art_into_emptyPlan:
  "insertClassByTimeFixed emptyPlan (classEntryText ''9:00'' ''Art'' [] ''Clay'' 1 3) ''9:00'' ''Art''
   = \<lparr>newContent = emptyPlan @ nl # classEntryText ''9:00'' ''Art'' [] ''Clay'' 1 3 @ [nl],
      conflict = False\<rparr>"
  unfolding insertClassByTimeFixed_def Let_def emptyPlan_lines
  by (simp add: matchClassHeader_def)

lemma update_Art:
  "updateClassesList (emptyPlan @ nl # classEntryText ''9:00'' ''Art'' [] ''Clay'' 1 3 @ [nl])
     ''Art'' Add = planWithArt"
  by (simp add: updateClassesList_def matchClassesList_def emptyPlan_def planWithArt_def
      quoted_def isQuote_def Let_def nl_def)


lemma vaultWithEmptyPlan_path:
  "getFullPath vaultWithEmptyPlan (''Daily Plans/'' @ ''2025-01-07'' @ ''.md'')
     = ''20 Lesson Planning/Daily Plans/2025-01-07.md''"
  by (simp add: getFullPath_def vaultWithEmptyPlan_def emptyVault_def)

lemma artContext_time:
  "resolveClassTime artContext
     (getScheduleTypeForDate ''2025-01-07'' (ctxSpecialSchedules artContext))
   = (''9:00'', [], False)"
  by (simp add: resolveClassTime_def getScheduleTypeForDate_def artContext_def)

lemma createDailyPlanEntry_twice_with_plan:
  "createDailyPlanEntry sampleLocale vaultWithEmptyPlan ''2025-01-07'' ''Art'' ''Clay'' 1 3
     artContext
   = (\<lparr>success = True, skipped = None, hasScheduleWarning = Some False\<rparr>,
      emptyVault\<lparr>vault := [''20 Lesson Planning/Daily Plans/2025-01-07.md'' \<mapsto> planWithArt],
                 cache := [''20 Lesson Planning/Daily Plans/2025-01-07.md'' \<mapsto> planWithArt]\<rparr>)
   \<and> createDailyPlanEntry sampleLocale
       (snd (createDailyPlanEntry sampleLocale vaultWithEmptyPlan ''2025-01-07'' ''Art'' ''Clay''
               1 3 artContext))
       ''2025-01-07'' ''Art'' ''Clay'' 1 3 artContext
     = (\<lparr>success = True, skipped = Some True, hasScheduleWarning = Some False\<rparr>,
        snd (createDailyPlanEntry sampleLocale vaultWithEmptyPlan ''2025-01-07'' ''Art'' ''Clay''
               1 3 artContext))"
proof -
  let ?p = "''20 Lesson Planning/Daily Plans/2025-01-07.md''"
  let ?fs = "emptyVault\<lparr>vault := [?p \<mapsto> planWithArt], cache := [?p \<mapsto> planWithArt]\<rparr>"
  have r: "readFile vaultWithEmptyPlan ?p
           = (Some emptyPlan, vaultWithEmptyPlan\<lparr>cache := [?p \<mapsto> emptyPlan]\<rparr>)"
    by (simp add: readFile_def vaultWithEmptyPlan_def emptyVault_def Let_def)
  have w: "snd (writeFile (vaultWithEmptyPlan\<lparr>cache := [?p \<mapsto> emptyPlan]\<rparr>) ?p planWithArt) = ?fs"
    by (simp add: writeFile_def vaultWithEmptyPlan_def emptyVault_def Let_def)
  have 1: "createDailyPlanEntry sampleLocale vaultWithEmptyPlan ''2025-01-07'' ''Art'' ''Clay'' 1 3
             artContext
           = (\<lparr>success = True, skipped = None, hasScheduleWarning = Some False\<rparr>, ?fs)"
    unfolding createDailyPlanEntry_def Let_def promiseTruthy_def vaultWithEmptyPlan_path r
      artContext_time
    by (simp add: emptyPlan_no_duplicate insert_Art_into_emptyPlan update_Art w
        del: One_nat_def)
  have p2: "getFullPath ?fs (''Daily Plans/'' @ ''2025-01-07'' @ ''.md'') = ?p"
    by (simp add: getFullPath_def emptyVault_def)
  have r2: "readFile ?fs ?p = (Some planWithArt, ?fs)"
    by (simp add: readFile_def emptyVault_def Let_def)
  have 2: "createDailyPlanEntry sampleLocale ?fs ''2025-01-07'' ''Art'' ''Clay'' 1 3 artContext
           = (\<lparr>success = True, skipped = Some True, hasScheduleWarning = Some False\<rparr>, ?fs)"
    unfolding createDailyPlanEntry_def Let_def promiseTruthy_def p2 r2
    by (simp add: planWithArt_duplicate)
  show ?thesis unfolding 1 using 2 by simp
qed

text \<open>
  Claim C8 fails on every skipped date. A run over the one date 2025-01-07 for Art,
  whose plan already holds the entry of Art, skips the date as a duplicate and tallies it
  as created as well: the answer is one created plan and one skipped plan, and the
  summary reads "Created 1 daily plans, skipped 1 duplicates", though nothing was
  created or changed. By \<open>createEntries_skipped_within_created\<close> every skipped date of
  every run is counted in both tallies.
\<close>

theorem createEntries_counts_skipped_as_created:
  "fst (createEntries sampleLocale vaultWithArt [''2025-01-07''] 0 ''Art'' ''Clay'' 3 artContext
          \<lparr>createdPlans = 0, skippedPlans = 0, scheduleWarnings = 0\<rparr>)
     = \<lparr>createdPlans = 1, skippedPlans = 1, scheduleWarnings = 0\<rparr>
   \<and> vault (snd (createEntries sampleLocale vaultWithArt [''2025-01-07''] 0 ''Art'' ''Clay'' 3
          artContext \<lparr>createdPlans = 0, skippedPlans = 0, scheduleWarnings = 0\<rparr>))
     = vault vaultWithArt"
proof -
  have r: "readFile vaultWithArt ''20 Lesson Planning/Daily Plans/2025-01-07.md''
           = (Some planWithArt,
              vaultWithArt\<lparr>cache :=
                [''20 Lesson Planning/Daily Plans/2025-01-07.md'' \<mapsto> planWithArt]\<rparr>)"
    by (simp add: readFile_def vaultWithArt_def emptyVault_def Let_def)
  have c: "createDailyPlanEntry sampleLocale vaultWithArt ''2025-01-07'' ''Art'' ''Clay'' (Suc 0) 3
             artContext
           = (\<lparr>success = True, skipped = Some True, hasScheduleWarning = Some False\<rparr>,
              vaultWithArt\<lparr>cache :=
                [''20 Lesson Planning/Daily Plans/2025-01-07.md'' \<mapsto> planWithArt]\<rparr>)"
    unfolding createDailyPlanEntry_def Let_def promiseTruthy_def vaultWithArt_path r
    by (simp add: planWithArt_duplicate)
  show ?thesis by (simp add: c given_def)
qed

section \<open>Properties of the time resolution\<close>




text \<open>
  The time resolution written in line in \<open>createDailyPlanEntry\<close> agrees with
  \<open>getTimeForScheduleType\<close> on the time and on the review flag, except for an
  early-dismissal time that consists of white space only (which it treats as absent).
\<close>

lemma resolveClassTime_agrees:
  assumes "\<not> blankTime (earlyDismissalTime cs)"
  shows "fst (resolveClassTime
            \<lparr>ctxClassName = csName cs, ctxRegularTime = regularTime cs,
             ctxEarlyDismissalTime = earlyDismissalTime cs,
             ctxTestingDayTime = testingDayTime cs, ctxSpecialSchedules = ss\<rparr> st)
           = timeText (timeForScheduleType cs st)
         \<and> snd (snd (resolveClassTime
            \<lparr>ctxClassName = csName cs, ctxRegularTime = regularTime cs,
             ctxEarlyDismissalTime = earlyDismissalTime cs,
             ctxTestingDayTime = testingDayTime cs, ctxSpecialSchedules = ss\<rparr> st))
           = needsReview (timeForScheduleType cs st)"
  using assms by (cases st) (auto simp: resolveClassTime_def timeForScheduleType_def blankTime_def)

end
